theory Spec2Isabelle
  imports Complex_Main
begin

section \<open>Data model of world.py\<close>

text \<open>
  A position is a pair (row, column) of Python integers. Directions are the integers
  0 (up), 1 (right), 2 (down), 3 (left).
\<close>

type_synonym pos = "int \<times> int"

text \<open>The exceptions that the code of \<open>World\<close> can raise.\<close>

datatype error =
  IndexError | KeyError | ValueError | AssertionError | UnboundLocalError | SystemExit

definition error_name :: "error \<Rightarrow> string" where
  "error_name e = (case e of
       IndexError \<Rightarrow> ''IndexError'' | KeyError \<Rightarrow> ''KeyError''
     | ValueError \<Rightarrow> ''ValueError'' | AssertionError \<Rightarrow> ''AssertionError''
     | UnboundLocalError \<Rightarrow> ''UnboundLocalError'' | SystemExit \<Rightarrow> ''SystemExit'')"

text \<open>
  What the engine needs to know of an agent object: whether it is an instance of
  \<open>HumanAgent\<close>, and its \<open>autoplay\<close> attribute.
\<close>

record agent =
  is_human :: bool
  autoplay :: bool

text \<open>
  The attributes of a \<open>World\<close> object. \<open>chess_board\<close> is the numpy array of shape
  (board_size, board_size, 4) and dtype bool; it is read here at resolved indices only,
  that is at \<open>0 \<le> r, c < board_size\<close> and \<open>0 \<le> d < 4\<close> (see \<open>np_index\<close>).
  \<open>results_cache\<close> is \<open>None\<close> for the empty tuple it starts with. The entries of
  \<open>p0_time\<close> and \<open>p1_time\<close> are the clock readings supplied by the environment.
  The rendering attributes are left out: the model is of a world with
  \<open>display_ui = False\<close>.
\<close>

record world =
  p0 :: agent
  p1 :: agent
  board_size :: int
  turn :: int
  p0_time :: "nat list"
  p1_time :: "nat list"
  results_cache :: "(bool \<times> int \<times> int) option"
  chess_board :: "int \<Rightarrow> int \<Rightarrow> int \<Rightarrow> bool"
  max_step :: int
  p0_pos :: pos
  p1_pos :: pos
  initial_end :: bool

text \<open>
  Results: \<open>error + 'a\<close> is a call that raises (\<open>Inl\<close>) or returns (\<open>Inr\<close>); the
  \<open>option\<close> around it, where a loop is involved, is \<open>None\<close> for a call that never
  returns.
\<close>

definition bind_err :: "error + 'a \<Rightarrow> ('a \<Rightarrow> error + 'b) \<Rightarrow> error + 'b" where
  "bind_err m f = (case m of Inl e \<Rightarrow> Inl e | Inr x \<Rightarrow> f x)"

definition bind_res ::
  "(error + 'a) option \<Rightarrow> ('a \<Rightarrow> (error + 'b) option) \<Rightarrow> (error + 'b) option" where
  "bind_res m f = (case m of None \<Rightarrow> None | Some (Inl e) \<Rightarrow> Some (Inl e) | Some (Inr x) \<Rightarrow> f x)"

text \<open>
  Indexing an axis of length \<open>n\<close> with the integer \<open>i\<close>, as numpy arrays and Python
  tuples do: a negative index counts from the end, anything outside \<open>[-n, n)\<close> raises
  IndexError.
\<close>

definition np_index :: "int \<Rightarrow> int \<Rightarrow> error + int" where
  "np_index n i =
     (if 0 \<le> i \<and> i < n then Inr i
      else if - n \<le> i \<and> i < 0 then Inr (i + n)
      else Inl IndexError)"

text \<open>\<open>self.chess_board[r, c, d]\<close>\<close>

definition board_get :: "world \<Rightarrow> int \<Rightarrow> int \<Rightarrow> int \<Rightarrow> error + bool" where
  "board_get w r c d =
     bind_err (np_index (board_size w) r) (\<lambda>r'.
     bind_err (np_index (board_size w) c) (\<lambda>c'.
     bind_err (np_index 4 d) (\<lambda>d'.
     Inr (chess_board w r' c' d'))))"

text \<open>\<open>self.chess_board[r, c, d] = True\<close>\<close>

definition board_set :: "world \<Rightarrow> int \<Rightarrow> int \<Rightarrow> int \<Rightarrow> error + world" where
  "board_set w r c d =
     bind_err (np_index (board_size w) r) (\<lambda>r'.
     bind_err (np_index (board_size w) c) (\<lambda>c'.
     bind_err (np_index 4 d) (\<lambda>d'.
     Inr (w\<lparr>chess_board := (\<lambda>i j k. if i = r' \<and> j = c' \<and> k = d' then True
                                     else chess_board w i j k)\<rparr>))))"

text \<open>The table \<open>self.moves = ((-1, 0), (0, 1), (1, 0), (0, -1))\<close>, at a resolved index.\<close>

definition move_of :: "int \<Rightarrow> pos" where
  "move_of d = (if d = 0 then (-1, 0) else if d = 1 then (0, 1)
                else if d = 2 then (1, 0) else (0, -1))"

text \<open>\<open>self.moves[d]\<close>: a tuple lookup.\<close>

definition moves :: "int \<Rightarrow> error + pos" where
  "moves d = bind_err (np_index 4 d) (\<lambda>i. Inr (move_of i))"

text \<open>The dict \<open>self.opposites = {0: 2, 1: 3, 2: 0, 3: 1}\<close> at one of its keys.\<close>

definition opposite_of :: "int \<Rightarrow> int" where
  "opposite_of d = (if d = 0 then 2 else if d = 1 then 3 else if d = 2 then 0 else 1)"

text \<open>\<open>self.opposites[d]\<close>: a dict lookup, KeyError at any other key.\<close>

definition opposites :: "int \<Rightarrow> error + int" where
  "opposites d = (if d = 0 \<or> d = 1 \<or> d = 2 \<or> d = 3 then Inr (opposite_of d) else Inl KeyError)"

text \<open>\<open>cur_pos + move\<close>, componentwise.\<close>

definition add_pos :: "pos \<Rightarrow> pos \<Rightarrow> pos" where
  "add_pos p m = (fst p + fst m, snd p + snd m)"

definition check_boundary :: "world \<Rightarrow> pos \<Rightarrow> bool" where
  "check_boundary w p =
     (0 \<le> fst p \<and> fst p < board_size w \<and> 0 \<le> snd p \<and> snd p < board_size w)"

subsection \<open>set_barrier\<close>

text \<open>
  The wall bit of the cell, then the bit of the neighbour in the opposite direction.
  An exception raised on the way is the result; the board written so far is not part
  of it.
\<close>

definition set_barrier :: "world \<Rightarrow> int \<Rightarrow> int \<Rightarrow> int \<Rightarrow> error + world" where
  "set_barrier w r c dir =
     bind_err (board_set w r c dir) (\<lambda>w1.
     bind_err (moves dir) (\<lambda>move.
     bind_err (opposites dir) (\<lambda>od.
     board_set w1 (r + fst move) (c + snd move) od)))"

subsection \<open>check_valid_step\<close>

text \<open>
  The \<open>for dir, move in enumerate(self.moves)\<close> loop of the search, over the directions
  still to try. The result is \<open>(is_reached, visited, state_queue)\<close>; the \<open>break\<close> on
  reaching the end position is the return without looking at the rest.
\<close>

fun expand ::
  "world \<Rightarrow> pos \<Rightarrow> pos \<Rightarrow> pos \<Rightarrow> int \<Rightarrow> int list \<Rightarrow> pos set \<Rightarrow> (pos \<times> int) list
   \<Rightarrow> error + (bool \<times> pos set \<times> (pos \<times> int) list)" where
  "expand w adv_pos end_pos cur_pos cur_step [] visited state_queue =
     Inr (False, visited, state_queue)"
| "expand w adv_pos end_pos cur_pos cur_step (dir # dirs) visited state_queue =
     (case board_get w (fst cur_pos) (snd cur_pos) dir of
        Inl e \<Rightarrow> Inl e
      | Inr wall \<Rightarrow>
          if wall then expand w adv_pos end_pos cur_pos cur_step dirs visited state_queue
          else
            let next_pos = add_pos cur_pos (move_of dir) in
            if next_pos = adv_pos \<or> next_pos \<in> visited
            then expand w adv_pos end_pos cur_pos cur_step dirs visited state_queue
            else if next_pos = end_pos then Inr (True, visited, state_queue)
            else expand w adv_pos end_pos cur_pos cur_step dirs
                   (insert next_pos visited) (state_queue @ [(next_pos, cur_step + 1)]))"

text \<open>
  The loop \<open>while state_queue and not is_reached\<close>. The queue is popped at the front; the
  \<open>break\<close> at \<open>cur_step == self.max_step\<close> leaves the loop with \<open>is_reached\<close> still False.
\<close>

partial_function (option) bfs_loop ::
  "world \<Rightarrow> pos \<Rightarrow> pos \<Rightarrow> (pos \<times> int) list \<Rightarrow> pos set \<Rightarrow> (error + bool) option" where
  "bfs_loop w adv_pos end_pos state_queue visited =
     (case state_queue of
        [] \<Rightarrow> Some (Inr False)
      | (cur_pos, cur_step) # rest \<Rightarrow>
          if cur_step = max_step w then Some (Inr False)
          else
            (case expand w adv_pos end_pos cur_pos cur_step [0, 1, 2, 3] visited rest of
               Inl e \<Rightarrow> Some (Inl e)
             | Inr (is_reached, visited', queue') \<Rightarrow>
                 if is_reached then Some (Inr True)
                 else bfs_loop w adv_pos end_pos queue' visited'))"

declare bfs_loop.simps [code]

definition check_valid_step :: "world \<Rightarrow> pos \<Rightarrow> pos \<Rightarrow> int \<Rightarrow> (error + bool) option" where
  "check_valid_step w start_pos end_pos barrier_dir =
     (case board_get w (fst end_pos) (snd end_pos) barrier_dir of
        Inl e \<Rightarrow> Some (Inl e)
      | Inr wall \<Rightarrow>
          if wall then Some (Inr False)
          else if start_pos = end_pos then Some (Inr True)
          else
            let adv_pos = (if turn w \<noteq> 0 then p0_pos w else p1_pos w)
            in bfs_loop w adv_pos end_pos [(start_pos, 0)] {start_pos})"

subsection \<open>check_endgame\<close>

text \<open>
  The dict \<open>father\<close> as a map. Its keys are, in insertion order, the cells of the board in
  row-major order (\<open>cells\<close>): the first loop inserts them, and \<open>find\<close> and \<open>union\<close>
  only assign to keys that are there.
\<close>

type_synonym father = "pos \<rightharpoonup> pos"

definition cells :: "int \<Rightarrow> pos list" where
  "cells n = concat (map (\<lambda>r. map (\<lambda>c. (r, c)) [0..n - 1]) [0..n - 1])"

definition init_father :: "int \<Rightarrow> father" where
  "init_father n = fold (\<lambda>p father. father(p \<mapsto> p)) (cells n) Map.empty"

text \<open>
  \<open>find\<close> with path compression; the dict it mutates is passed in and returned.
  A lookup of a missing key raises KeyError.
\<close>

partial_function (option) find :: "father \<Rightarrow> pos \<Rightarrow> (error + father \<times> pos) option" where
  "find father p =
     (case father p of
        None \<Rightarrow> Some (Inl KeyError)
      | Some q \<Rightarrow>
          if q \<noteq> p then
            Option.bind (find father q) (\<lambda>res.
              case res of
                Inl e \<Rightarrow> Some (Inl e)
              | Inr (father', rt) \<Rightarrow> Some (Inr (father'(p \<mapsto> rt), rt)))
          else Some (Inr (father, q)))"

declare find.simps [code]

text \<open>\<open>union(pos1, pos2)\<close>: \<open>father[pos1] = pos2\<close>\<close>

definition union :: "father \<Rightarrow> pos \<Rightarrow> pos \<Rightarrow> father" where
  "union father pos1 pos2 = father(pos1 \<mapsto> pos2)"

text \<open>
  The three nested loops over \<open>r\<close>, \<open>c\<close> and \<open>enumerate(self.moves[1:3])\<close>, in their
  order of iteration: for the cell \<open>p\<close> and \<open>dir\<close> 0 or 1, the wall bit read is
  \<open>dir + 1\<close> and the move is \<open>self.moves[dir + 1]\<close>.
\<close>

definition edge_order :: "int \<Rightarrow> (pos \<times> int) list" where
  "edge_order n = concat (map (\<lambda>p. [(p, 0), (p, 1)]) (cells n))"

fun union_loop :: "world \<Rightarrow> (pos \<times> int) list \<Rightarrow> father \<Rightarrow> (error + father) option" where
  "union_loop w [] father = Some (Inr father)"
| "union_loop w ((p, dir) # rest) father =
     (case board_get w (fst p) (snd p) (dir + 1) of
        Inl e \<Rightarrow> Some (Inl e)
      | Inr wall \<Rightarrow>
          if wall then union_loop w rest father
          else
            bind_res (find father p) (\<lambda>(father1, pos_a).
            bind_res (find father1 (add_pos p (move_of (dir + 1)))) (\<lambda>(father2, pos_b).
            union_loop w rest
              (if pos_a \<noteq> pos_b then union father2 pos_a pos_b else father2))))"

text \<open>The loop that calls \<open>find\<close> on every cell.\<close>

fun find_all :: "pos list \<Rightarrow> father \<Rightarrow> (error + father) option" where
  "find_all [] father = Some (Inr father)"
| "find_all (p # ps) father =
     bind_res (find father p) (\<lambda>(father', rt). find_all ps father')"

text \<open>\<open>list(father.values()).count(v)\<close>, the keys of the dict being \<open>keys\<close>.\<close>

definition count_values :: "father \<Rightarrow> pos list \<Rightarrow> pos \<Rightarrow> int" where
  "count_values father keys v = int (length (filter (\<lambda>k. father k = Some v) keys))"

text \<open>
  The result is \<open>(is_endgame, p0_score, p1_score)\<close>. What follows the comparison of the
  roots in the source only chooses the message to log.
\<close>

definition check_endgame :: "world \<Rightarrow> (error + bool \<times> int \<times> int) option" where
  "check_endgame w =
     (let n = board_size w in
      bind_res (union_loop w (edge_order n) (init_father n)) (\<lambda>father1.
      bind_res (find_all (cells n) father1) (\<lambda>father2.
      bind_res (find father2 (p0_pos w)) (\<lambda>(father3, p0_r).
      bind_res (find father3 (p1_pos w)) (\<lambda>(father4, p1_r).
        let p0_score = count_values father4 (cells n) p0_r;
            p1_score = count_values father4 (cells n) p1_r
        in if p0_r = p1_r then Some (Inr (False, p0_score, p1_score))
           else Some (Inr (True, p0_score, p1_score)))))))"

subsection \<open>The random source\<close>

text \<open>
  The global numpy generator is an explicit stream of raw draws. \<open>randint low high\<close>
  takes the next raw draw into \<open>[low, high)\<close>, and raises ValueError on an empty range.
\<close>

type_synonym rng = "nat \<Rightarrow> nat"

definition randint :: "int \<Rightarrow> int \<Rightarrow> rng \<Rightarrow> error + int \<times> rng" where
  "randint low high g =
     (if high \<le> low then Inl ValueError
      else Inr (low + int (g 0) mod (high - low), \<lambda>i. g (Suc i)))"

text \<open>\<open>np.random.randint(low, high, size=2)\<close>\<close>

definition randint2 :: "int \<Rightarrow> int \<Rightarrow> rng \<Rightarrow> error + pos \<times> rng" where
  "randint2 low high g =
     bind_err (randint low high g) (\<lambda>(r, g1).
     bind_err (randint low high g1) (\<lambda>(c, g2). Inr ((r, c), g2)))"

subsection \<open>random_walk\<close>

text \<open>
  The comprehension that builds \<open>allowed_dirs\<close>, over the directions still to test:
  no wall on that side of the cell, and the adversary is not the cell beyond it.
\<close>

fun allowed_dirs :: "world \<Rightarrow> pos \<Rightarrow> pos \<Rightarrow> int list \<Rightarrow> error + int list" where
  "allowed_dirs w my_pos adv_pos [] = Inr []"
| "allowed_dirs w my_pos adv_pos (d # ds) =
     (case board_get w (fst my_pos) (snd my_pos) d of
        Inl e \<Rightarrow> Inl e
      | Inr wall \<Rightarrow>
          (case allowed_dirs w my_pos adv_pos ds of
             Inl e \<Rightarrow> Inl e
           | Inr rest \<Rightarrow>
               Inr (if \<not> wall \<and> \<not> adv_pos = add_pos my_pos (move_of d) then d # rest
                    else rest)))"

text \<open>The comprehension that builds \<open>allowed_barriers\<close>.\<close>

fun allowed_barriers :: "world \<Rightarrow> pos \<Rightarrow> int list \<Rightarrow> error + int list" where
  "allowed_barriers w my_pos [] = Inr []"
| "allowed_barriers w my_pos (i # is) =
     (case board_get w (fst my_pos) (snd my_pos) i of
        Inl e \<Rightarrow> Inl e
      | Inr wall \<Rightarrow>
          (case allowed_barriers w my_pos is of
             Inl e \<Rightarrow> Inl e
           | Inr rest \<Rightarrow> Inr (if \<not> wall then i # rest else rest)))"

text \<open>The loop \<open>for _ in range(steps)\<close>, with the number of iterations left.\<close>

fun walk_steps :: "world \<Rightarrow> pos \<Rightarrow> nat \<Rightarrow> pos \<Rightarrow> rng \<Rightarrow> error + pos \<times> rng" where
  "walk_steps w adv_pos 0 my_pos g = Inr (my_pos, g)"
| "walk_steps w adv_pos (Suc k) my_pos g =
     (case allowed_dirs w my_pos adv_pos [0, 1, 2, 3] of
        Inl e \<Rightarrow> Inl e
      | Inr ds \<Rightarrow>
          if length ds = 0 then Inr (my_pos, g)
          else
            (case randint 0 (int (length ds)) g of
               Inl e \<Rightarrow> Inl e
             | Inr (i, g') \<Rightarrow>
                 walk_steps w adv_pos k (add_pos my_pos (move_of (ds ! nat i))) g'))"

definition random_walk :: "world \<Rightarrow> pos \<Rightarrow> pos \<Rightarrow> rng \<Rightarrow> error + (pos \<times> int) \<times> rng" where
  "random_walk w my_pos adv_pos g =
     bind_err (randint 0 (max_step w + 1) g) (\<lambda>(steps, g1).
     bind_err (walk_steps w adv_pos (nat steps) my_pos g1) (\<lambda>(my_pos', g2).
     bind_err (allowed_barriers w my_pos' [0, 1, 2, 3]) (\<lambda>bs.
       if \<not> 1 \<le> length bs then Inl AssertionError
       else bind_err (randint 0 (int (length bs)) g2) (\<lambda>(i, g3).
              Inr ((my_pos', bs ! nat i), g3)))))"

subsection \<open>step\<close>

text \<open>
  What the call \<open>next_pos, dir = cur_player.step(...)\<close> does is an input of the model:
  the statement raises an exception of the type named (the agent raised it, or its
  return value did not unpack into two), or it binds \<open>next_pos\<close> to a sequence of
  integers and \<open>dir\<close> to an integer, the clock then giving \<open>time_taken\<close>.
\<close>

datatype agent_outcome =
    Raises string
  | Returns "int list" int nat

text \<open>\<open>needle in hay\<close> on strings\<close>

definition contains :: "string \<Rightarrow> string \<Rightarrow> bool" where
  "contains needle hay =
     (\<exists>i \<in> set [0..<Suc (length hay)]. take (length needle) (drop i hay) = needle)"

definition update_player_time :: "world \<Rightarrow> nat \<Rightarrow> world" where
  "update_player_time w time_taken =
     (if turn w = 0 then w\<lparr>p0_time := p0_time w @ [time_taken]\<rparr>
      else w\<lparr>p1_time := p1_time w @ [time_taken]\<rparr>)"

text \<open>
  The three checks of the \<open>try\<close> block on a returned move. Unpacking \<open>r, c = pos\<close> in
  \<open>check_boundary\<close> raises ValueError unless the sequence has two entries.
\<close>

definition validate_move :: "world \<Rightarrow> pos \<Rightarrow> int list \<Rightarrow> int \<Rightarrow> (error + pos \<times> int) option" where
  "validate_move w cur_pos next_pos dir =
     (case next_pos of
        [r, c] \<Rightarrow>
          if \<not> check_boundary w (r, c) then Some (Inl ValueError)
          else if \<not> (0 \<le> dir \<and> dir \<le> 3) then Some (Inl ValueError)
          else bind_res (check_valid_step w cur_pos (r, c) dir) (\<lambda>ok.
                 if \<not> ok then Some (Inl ValueError) else Some (Inr ((r, c), dir)))
      | _ \<Rightarrow> Some (Inl ValueError))"

text \<open>
  The \<open>try\<close> block: the world after it, the local \<open>time_taken\<close> (\<open>None\<close> while it is
  unbound), and either the name of the type of the exception caught or the move.
\<close>

definition try_move ::
  "world \<Rightarrow> pos \<Rightarrow> agent_outcome \<Rightarrow> (world \<times> nat option \<times> (string + pos \<times> int)) option" where
  "try_move w cur_pos outcome =
     (case outcome of
        Raises ex_type \<Rightarrow> Some (w, None, Inl ex_type)
      | Returns next_pos dir t \<Rightarrow>
          let w1 = update_player_time w t in
          (case validate_move w1 cur_pos next_pos dir of
             None \<Rightarrow> None
           | Some (Inl e) \<Rightarrow> Some (w1, Some t, Inl (error_name e))
           | Some (Inr m) \<Rightarrow> Some (w1, Some t, Inr m)))"

text \<open>The \<open>except BaseException\<close> handler: \<open>sys.exit(0)\<close> raises SystemExit.\<close>

definition handle_exception ::
  "world \<Rightarrow> agent \<Rightarrow> pos \<Rightarrow> pos \<Rightarrow> string \<Rightarrow> rng \<Rightarrow> error + (pos \<times> int) \<times> rng" where
  "handle_exception w cur_player cur_pos adv_pos ex_type g =
     (if (contains ''SystemExit'' ex_type \<and> is_human cur_player)
         \<or> contains ''KeyboardInterrupt'' ex_type
      then Inl SystemExit
      else random_walk w cur_pos adv_pos g)"

text \<open>
  The rest of \<open>step\<close>, from the log message on. The message is an f-string: it looks
  up \<open>self.player_names[self.turn]\<close> and \<open>self.dir_names[dir]\<close> (dicts with the keys
  0, 1 and 0 to 3) and reads the local \<open>time_taken\<close>, which raises UnboundLocalError
  when nothing was assigned to it.
\<close>

definition apply_move ::
  "world \<Rightarrow> nat option \<Rightarrow> pos \<Rightarrow> int \<Rightarrow> (error + world \<times> (bool \<times> int \<times> int)) option" where
  "apply_move w time_taken next_pos dir =
     (if \<not> (turn w = 0 \<or> turn w = 1) then Some (Inl KeyError)
      else if \<not> (dir = 0 \<or> dir = 1 \<or> dir = 2 \<or> dir = 3) then Some (Inl KeyError)
      else if time_taken = None then Some (Inl UnboundLocalError)
      else
        let w2 = (if turn w = 0 then w\<lparr>p0_pos := next_pos\<rparr> else w\<lparr>p1_pos := next_pos\<rparr>)
        in case set_barrier w2 (fst next_pos) (snd next_pos) dir of
             Inl e \<Rightarrow> Some (Inl e)
           | Inr w3 \<Rightarrow>
               let w4 = w3\<lparr>turn := 1 - turn w3\<rparr> in
               bind_res (check_endgame w4) (\<lambda>results.
                 Some (Inr (w4\<lparr>results_cache := Some results\<rparr>, results))))"

definition step ::
  "world \<Rightarrow> agent_outcome \<Rightarrow> rng \<Rightarrow> (error + world \<times> (bool \<times> int \<times> int) \<times> rng) option" where
  "step w outcome g =
     (let cur_player = (if turn w = 0 then p0 w else p1 w);
          cur_pos = (if turn w = 0 then p0_pos w else p1_pos w);
          adv_pos = (if turn w = 0 then p1_pos w else p0_pos w)
      in case try_move w cur_pos outcome of
           None \<Rightarrow> None
         | Some (w1, time_taken, tried) \<Rightarrow>
             (case (case tried of
                      Inr m \<Rightarrow> Inr (m, g)
                    | Inl ex_type \<Rightarrow> handle_exception w1 cur_player cur_pos adv_pos ex_type g) of
                Inl e \<Rightarrow> Some (Inl e)
              | Inr ((next_pos, dir), g') \<Rightarrow>
                  bind_res (apply_move w1 time_taken next_pos dir) (\<lambda>(w', results).
                    Some (Inr (w', results, g')))))"

subsection \<open>The constructor\<close>

text \<open>
  The array of zeros and the four slice assignments that set the border. A negative
  size makes \<open>np.zeros\<close> raise ValueError; on an empty array the first assignment
  raises IndexError.
\<close>

definition border_board :: "int \<Rightarrow> error + (int \<Rightarrow> int \<Rightarrow> int \<Rightarrow> bool)" where
  "border_board n =
     (if n < 0 then Inl ValueError
      else if n = 0 then Inl IndexError
      else
        let b0 = (\<lambda>r c d. False);
            b1 = (\<lambda>r c d. if r = 0 \<and> d = 0 then True else b0 r c d);
            b2 = (\<lambda>r c d. if c = 0 \<and> d = 3 then True else b1 r c d);
            b3 = (\<lambda>r c d. if r = n - 1 \<and> d = 2 then True else b2 r c d);
            b4 = (\<lambda>r c d. if c = n - 1 \<and> d = 1 then True else b3 r c d)
        in Inr b4)"

text \<open>\<open>self.max_step = (self.board_size + 1) // 2\<close>\<close>

definition max_step_of :: "int \<Rightarrow> int" where
  "max_step_of n = (n + 1) div 2"

text \<open>
  Drawing \<open>pos\<close> and \<open>dir\<close> for a random barrier, again while the board has a wall
  there.
\<close>

partial_function (option) draw_barrier ::
  "world \<Rightarrow> rng \<Rightarrow> (error + (pos \<times> int) \<times> rng) option" where
  "draw_barrier w g =
     (case randint2 0 (board_size w) g of
        Inl e \<Rightarrow> Some (Inl e)
      | Inr (p, g1) \<Rightarrow>
          (case randint 0 4 g1 of
             Inl e \<Rightarrow> Some (Inl e)
           | Inr (dir, g2) \<Rightarrow>
               (case board_get w (fst p) (snd p) dir of
                  Inl e \<Rightarrow> Some (Inl e)
                | Inr wall \<Rightarrow>
                    if wall then draw_barrier w g2 else Some (Inr ((p, dir), g2)))))"

declare draw_barrier.simps [code]

text \<open>The loop \<open>for _ in range(num_barriers)\<close>, with the number of iterations left.\<close>

fun place_barriers :: "nat \<Rightarrow> world \<Rightarrow> rng \<Rightarrow> (error + world \<times> rng) option" where
  "place_barriers 0 w g = Some (Inr (w, g))"
| "place_barriers (Suc k) w g =
     bind_res (draw_barrier w g) (\<lambda>((p, dir), g').
       let anti_pos = (board_size w - 1 - fst p, board_size w - 1 - snd p) in
       case opposites dir of
         Inl e \<Rightarrow> Some (Inl e)
       | Inr anti_dir \<Rightarrow>
           (case set_barrier w (fst p) (snd p) dir of
              Inl e \<Rightarrow> Some (Inl e)
            | Inr w1 \<Rightarrow>
                (case set_barrier w1 (fst anti_pos) (snd anti_pos) anti_dir of
                   Inl e \<Rightarrow> Some (Inl e)
                 | Inr w2 \<Rightarrow> place_barriers k w2 g')))"

text \<open>
  One roll of the start positions: \<open>p0_pos\<close> is drawn, \<open>p1_pos\<close> is its mirror image,
  and \<open>initial_end\<close> is what \<open>check_endgame\<close> says of them.
\<close>

definition roll_positions :: "world \<Rightarrow> rng \<Rightarrow> (error + world \<times> rng) option" where
  "roll_positions w g =
     (case randint2 0 (board_size w) g of
        Inl e \<Rightarrow> Some (Inl e)
      | Inr (p, g') \<Rightarrow>
          let w1 = w\<lparr>p0_pos := p,
                     p1_pos := (board_size w - 1 - fst p, board_size w - 1 - snd p)\<rparr>
          in bind_res (check_endgame w1) (\<lambda>(ended, s0, s1).
               Some (Inr (w1\<lparr>initial_end := ended\<rparr>, g'))))"

text \<open>
  The loop \<open>while np.array_equal(self.p0_pos, self.p1_pos) or self.initial_end\<close>,
  entered after the first roll.
\<close>

partial_function (option) reroll_loop :: "world \<Rightarrow> rng \<Rightarrow> (error + world \<times> rng) option" where
  "reroll_loop w g =
     (if p0_pos w = p1_pos w \<or> initial_end w then
        (case roll_positions w g of
           None \<Rightarrow> None
         | Some (Inl e) \<Rightarrow> Some (Inl e)
         | Some (Inr (w', g')) \<Rightarrow> reroll_loop w' g')
      else Some (Inr (w, g)))"

declare reroll_loop.simps [code]

text \<open>
  \<open>World.__init__\<close>. \<open>AGENT_REGISTRY\<close>, \<open>MIN_BOARD_SIZE\<close> and \<open>MAX_BOARD_SIZE\<close> are
  defined outside world.py and are parameters: the registry maps a name to the agent
  its class constructs. \<open>board_size\<close> is \<open>None\<close> for a random size.
\<close>

definition World_init ::
  "(string \<rightharpoonup> agent) \<Rightarrow> int \<Rightarrow> int \<Rightarrow> string \<Rightarrow> string \<Rightarrow> int option \<Rightarrow> bool \<Rightarrow> rng
   \<Rightarrow> (error + world \<times> rng) option" where
  "World_init registry min_board_size max_board_size player_1 player_2 board_size_arg
     autoplay_arg g =
     (case (registry player_1, registry player_2) of
        (Some a0, Some a1) \<Rightarrow>
          if autoplay_arg \<and> (\<not> autoplay a0 \<or> \<not> autoplay a1) then Some (Inl ValueError)
          else
            (case (case board_size_arg of
                     None \<Rightarrow> randint min_board_size max_board_size g
                   | Some n \<Rightarrow> Inr (n, g)) of
               Inl e \<Rightarrow> Some (Inl e)
             | Inr (n, g1) \<Rightarrow>
                 (case border_board n of
                    Inl e \<Rightarrow> Some (Inl e)
                  | Inr board \<Rightarrow>
                      let w0 = \<lparr>p0 = a0, p1 = a1, board_size = n, turn = 0,
                                p0_time = [], p1_time = [], results_cache = None,
                                chess_board = board, max_step = max_step_of n,
                                p0_pos = (0, 0), p1_pos = (0, 0), initial_end = False\<rparr>
                      in bind_res (place_barriers (nat (n div 2 - 1)) w0 g1) (\<lambda>(w1, g2).
                         bind_res (roll_positions w1 g2) (\<lambda>(w2, g3).
                         bind_res (reroll_loop w2 g3) (\<lambda>(w3, g4).
                           if initial_end w3 then Some (Inl AssertionError)
                           else Some (Inr (w3, g4)))))))
      | _ \<Rightarrow> Some (Inl ValueError))"

section \<open>Concrete worlds\<close>

text \<open>An agent that is not human and can play unattended.\<close>

definition robot :: agent where
  "robot = \<lparr>is_human = False, autoplay = True\<rparr>"

text \<open>
  A registry with the one agent name that \<open>__init__\<close> has as its default, the random
  source that always draws the same raw value, and the random source that draws 1 three
  times and 0 from then on.
\<close>

definition default_registry :: "string \<rightharpoonup> agent" where
  "default_registry = [''random_agent'' \<mapsto> robot]"

definition const_rng :: "nat \<Rightarrow> rng" where
  "const_rng k = (\<lambda>i. k)"

definition ones_then_zeros :: rng where
  "ones_then_zeros = (\<lambda>i. if i < 3 then 1 else 0)"

text \<open>
  The world that \<open>__init__\<close> sets up on a board of size \<open>n\<close> on which no random
  barrier was placed: the border walls only, player 0 to move, the players at \<open>a\<close> and
  \<open>b\<close>.
\<close>

definition bordered_world :: "int \<Rightarrow> pos \<Rightarrow> pos \<Rightarrow> world" where
  "bordered_world n a b =
     \<lparr>p0 = robot, p1 = robot, board_size = n, turn = 0, p0_time = [], p1_time = [],
      results_cache = None,
      chess_board = (\<lambda>r c d. (r = 0 \<and> d = 0) \<or> (c = 0 \<and> d = 3)
                              \<or> (r = n - 1 \<and> d = 2) \<or> (c = n - 1 \<and> d = 1)),
      max_step = max_step_of n, p0_pos = a, p1_pos = b, initial_end = False\<rparr>"

text \<open>
  The board of size 3 after four turns of play from \<open>bordered_world 3 (0, 0) (2, 2)\<close>:
  player 0 went to (0, 2) and put a wall below, player 1 stayed at (2, 2) and put a wall to
  the left, player 0 went to (0, 1) and put a wall to the right, player 1 stayed and put a
  wall above. The cells (0, 2) and (2, 2) are each closed off.
\<close>

definition three_region_world :: world where
  "three_region_world =
     (bordered_world 3 (0, 1) (2, 2))
       \<lparr>chess_board := (\<lambda>r c d.
           chess_board (bordered_world 3 (0, 1) (2, 2)) r c d
           \<or> (r, c, d) \<in> set [(0, 2, 2), (1, 2, 0), (2, 2, 3), (2, 1, 1),
                               (0, 1, 1), (0, 2, 3), (2, 2, 0), (1, 2, 2)])\<rparr>"


section \<open>Notions of the specification\<close>

text \<open>
  The two invariants of the board in play. Border: every cell on an edge of the board
  has the wall bit of its outward-facing direction set. Mirroring: a cell and its
  neighbour in a direction, both on the board, agree on the wall between them.
\<close>

definition border_walls :: "world \<Rightarrow> bool" where
  "border_walls w =
     list_all (\<lambda>i. chess_board w 0 i 0 \<and> chess_board w i 0 3
                  \<and> chess_board w (board_size w - 1) i 2
                  \<and> chess_board w i (board_size w - 1) 1)
       [0..board_size w - 1]"

definition mirrored_walls :: "world \<Rightarrow> bool" where
  "mirrored_walls w =
     list_all (\<lambda>p. list_all (\<lambda>d.
         \<not> check_boundary w (add_pos p (move_of d))
         \<or> chess_board w (fst p) (snd p) d
             = chess_board w (fst (add_pos p (move_of d))) (snd (add_pos p (move_of d)))
                 (opposite_of d))
       [0, 1, 2, 3]) (cells (board_size w))"

text \<open>
  \<open>has_opening w p\<close>: the cell \<open>p\<close> has a direction without a wall.
\<close>

definition has_opening :: "world \<Rightarrow> pos \<Rightarrow> bool" where
  "has_opening w p = (\<exists>d \<in> set [0, 1, 2, 3]. \<not> chess_board w (fst p) (snd p) d)"

text \<open>
  \<open>reachable_in w adv n a b\<close>: there is a path of at most \<open>n\<close> steps from \<open>a\<close> to \<open>b\<close>,
  each step from a cell of the board to the neighbour in a direction in which the cell
  has no wall, and never into the cell \<open>adv\<close>.
\<close>

fun reachable_in :: "world \<Rightarrow> pos \<Rightarrow> nat \<Rightarrow> pos \<Rightarrow> pos \<Rightarrow> bool" where
  "reachable_in w adv 0 a b = (a = b)"
| "reachable_in w adv (Suc n) a b =
     (a = b \<or> (check_boundary w a \<and> (\<exists>d \<in> set [0, 1, 2, 3].
        \<not> chess_board w (fst a) (snd a) d \<and> add_pos a (move_of d) \<noteq> adv
        \<and> reachable_in w adv n (add_pos a (move_of d)) b)))"

text \<open>
  \<open>walk_of_length w adv n a b\<close>: there is a walk of exactly \<open>n\<close> such steps from
  \<open>a\<close> to \<open>b\<close>.
\<close>

fun walk_of_length :: "world \<Rightarrow> pos \<Rightarrow> nat \<Rightarrow> pos \<Rightarrow> pos \<Rightarrow> bool" where
  "walk_of_length w adv 0 a b = (a = b)"
| "walk_of_length w adv (Suc n) a b =
     (check_boundary w a \<and> (\<exists>d \<in> set [0, 1, 2, 3].
        \<not> chess_board w (fst a) (snd a) d \<and> add_pos a (move_of d) \<noteq> adv
        \<and> walk_of_length w adv n (add_pos a (move_of d)) b))"

text \<open>
  \<open>okmove w adv a d\<close>: from the cell \<open>a\<close> a step in direction \<open>d\<close> is allowed: no wall
  on that side, and the adversary is not on the cell beyond.
\<close>

definition okmove :: "world \<Rightarrow> pos \<Rightarrow> pos \<Rightarrow> int \<Rightarrow> bool" where
  "okmove w adv a d =
     (0 \<le> d \<and> d \<le> 3 \<and> \<not> chess_board w (fst a) (snd a) d \<and> add_pos a (move_of d) \<noteq> adv)"

text \<open>
  The grid distance of two cells, the cells of the rectangle they span, and the board
  without interior walls: a wall bit is set exactly where the neighbour is off the board.
\<close>

definition grid_distance :: "pos \<Rightarrow> pos \<Rightarrow> int" where
  "grid_distance a b = \<bar>fst a - fst b\<bar> + \<bar>snd a - snd b\<bar>"

definition in_rectangle :: "pos \<Rightarrow> pos \<Rightarrow> pos \<Rightarrow> bool" where
  "in_rectangle a b p =
     (min (fst a) (fst b) \<le> fst p \<and> fst p \<le> max (fst a) (fst b)
      \<and> min (snd a) (snd b) \<le> snd p \<and> snd p \<le> max (snd a) (snd b))"

definition wall_free :: "world \<Rightarrow> bool" where
  "wall_free w =
     list_all (\<lambda>p. list_all (\<lambda>d.
         chess_board w (fst p) (snd p) d = (\<not> check_boundary w (add_pos p (move_of d))))
       [0, 1, 2, 3]) (cells (board_size w))"

text \<open>
  The invariant of the search of \<open>check_valid_step\<close> from \<open>s\<close> for \<open>e\<close>. \<open>L\<close> labels
  every visited cell with the step count it was queued with, \<open>t\<close> is the step count of the
  cell popped last, and \<open>pend\<close> holds the directions of that cell still to be tried.
\<close>

definition search_inv ::
  "world \<Rightarrow> pos \<Rightarrow> pos \<Rightarrow> pos \<Rightarrow> (pos \<Rightarrow> int) \<Rightarrow> int \<Rightarrow> (pos \<times> int) set
   \<Rightarrow> (pos \<times> int) list \<Rightarrow> pos set \<Rightarrow> bool" where
  "search_inv w adv e s L t pend Q V =
     (s \<in> V \<and> L s = 0 \<and> e \<notin> V \<and> 0 \<le> t
      \<and> (\<forall>p. p \<in> V \<longrightarrow> check_boundary w p \<and> 0 \<le> L p \<and> L p \<le> t + 1 \<and> L p \<le> max_step w
              \<and> reachable_in w adv (nat (L p)) s p)
      \<and> (\<forall>p u. (p, u) \<in> set Q \<longrightarrow> p \<in> V \<and> L p = u \<and> t \<le> u)
      \<and> sorted (map snd Q)
      \<and> (\<forall>p d. p \<in> V \<longrightarrow> okmove w adv p d \<longrightarrow>
             add_pos p (move_of d) \<in> V \<or> p \<in> fst ` set Q \<or> (p, d) \<in> pend)
      \<and> (\<forall>p d. p \<in> V \<longrightarrow> okmove w adv p d \<longrightarrow> add_pos p (move_of d) \<in> V \<longrightarrow>
             L (add_pos p (move_of d)) \<le> L p + 1)
      \<and> (\<forall>p d. (p, d) \<in> pend \<longrightarrow> p \<in> V \<and> L p = t))"

text \<open>
  The grid graph of the board: an edge leads from a cell to the neighbour in a direction
  in which the cell has no wall. Two cells are in the same component when a chain of such
  edges, taken in either direction, joins them; the size of a component is the number of
  its cells.
\<close>

definition open_edges :: "world \<Rightarrow> (pos \<times> pos) set" where
  "open_edges w =
     {(a, b). check_boundary w a \<and> check_boundary w b
        \<and> (\<exists>d. 0 \<le> d \<and> d \<le> 3 \<and> \<not> chess_board w (fst a) (snd a) d
               \<and> b = add_pos a (move_of d))}"

definition same_component :: "world \<Rightarrow> pos \<Rightarrow> pos \<Rightarrow> bool" where
  "same_component w a b = ((a, b) \<in> (open_edges w \<union> (open_edges w)\<inverse>)\<^sup>*)"

definition component_size :: "world \<Rightarrow> pos \<Rightarrow> int" where
  "component_size w a = int (card {b. check_boundary w b \<and> same_component w a b})"

text \<open>
  The invariant of the dict \<open>father\<close> over the cells \<open>C\<close>: \<open>rep\<close> gives the root of
  every cell, and \<open>h\<close> decreases along every link to a father.
\<close>

definition uf_inv :: "pos set \<Rightarrow> father \<Rightarrow> (pos \<Rightarrow> pos) \<Rightarrow> (pos \<Rightarrow> nat) \<Rightarrow> bool" where
  "uf_inv C f rep h =
     (\<forall>x. x \<in> C \<longrightarrow>
        rep x \<in> C \<and> rep (rep x) = rep x \<and> (rep x \<noteq> x \<longrightarrow> h (rep x) < h x)
        \<and> (\<exists>p. p \<in> C \<and> f x = Some p \<and> rep p = rep x \<and> (p = x \<longrightarrow> rep x = x)
               \<and> (p \<noteq> x \<longrightarrow> h p < h x)))"

text \<open>
  The start positions are centrally symmetric: player 1 stands at the mirror image of
  player 0 through the centre of the board.
\<close>

definition centrally_symmetric :: "world \<Rightarrow> bool" where
  "centrally_symmetric w =
     (p1_pos w = (board_size w - 1 - fst (p0_pos w), board_size w - 1 - snd (p0_pos w)))"


section \<open>Basic facts\<close>

lemma bind_err_Inl [simp]: "bind_err (Inl e) f = Inl e"
  by (simp add: bind_err_def)

lemma bind_err_Inr [simp]: "bind_err (Inr x) f = f x"
  by (simp add: bind_err_def)

lemma bind_res_None [simp]: "bind_res None f = None"
  by (simp add: bind_res_def)

lemma bind_res_Inl [simp]: "bind_res (Some (Inl e)) f = Some (Inl e)"
  by (simp add: bind_res_def)

lemma bind_res_Inr [simp]: "bind_res (Some (Inr x)) f = f x"
  by (simp add: bind_res_def)

lemma np_index_in_range [simp]: "0 \<le> i \<Longrightarrow> i < n \<Longrightarrow> np_index n i = Inr i"
  by (simp add: np_index_def)

lemma board_get_in_range:
  "0 \<le> r \<Longrightarrow> r < board_size w \<Longrightarrow> 0 \<le> c \<Longrightarrow> c < board_size w \<Longrightarrow> 0 \<le> d \<Longrightarrow> d < 4
   \<Longrightarrow> board_get w r c d = Inr (chess_board w r c d)"
  by (simp add: board_get_def)

lemma board_set_in_range:
  "0 \<le> r \<Longrightarrow> r < board_size w \<Longrightarrow> 0 \<le> c \<Longrightarrow> c < board_size w \<Longrightarrow> 0 \<le> d \<Longrightarrow> d < 4
   \<Longrightarrow> board_set w r c d =
       Inr (w\<lparr>chess_board := (\<lambda>i j k. if i = r \<and> j = c \<and> k = d then True
                                      else chess_board w i j k)\<rparr>)"
  by (simp add: board_set_def)

lemma dir_cases: "0 \<le> d \<Longrightarrow> d \<le> 3 \<Longrightarrow> d = 0 \<or> d = 1 \<or> d = 2 \<or> d = (3::int)"
  by arith

lemma moves_dir: "0 \<le> d \<Longrightarrow> d \<le> 3 \<Longrightarrow> moves d = Inr (move_of d)"
  by (simp add: moves_def)

lemma opposites_dir: "0 \<le> d \<Longrightarrow> d \<le> 3 \<Longrightarrow> opposites d = Inr (opposite_of d)"
  using dir_cases [of d] by (auto simp: opposites_def)

lemma opposite_of_range: "0 \<le> d \<Longrightarrow> d \<le> 3 \<Longrightarrow> 0 \<le> opposite_of d \<and> opposite_of d \<le> 3"
  by (simp add: opposite_of_def)

lemma bordered_world_board:
  "0 < n \<Longrightarrow> border_board n = Inr (chess_board (bordered_world n a b))"
  by (auto simp: border_board_def bordered_world_def Let_def fun_eq_iff)


section \<open>The board and its paths\<close>

lemma set_cells: "set (cells n) = {p. 0 \<le> fst p \<and> fst p < n \<and> 0 \<le> snd p \<and> snd p < n}"
  by (auto simp: cells_def)

lemma cells_boundary: "p \<in> set (cells (board_size w)) \<longleftrightarrow> check_boundary w p"
  by (auto simp: set_cells check_boundary_def)

lemma border_wallsD:
  assumes "border_walls w" and "0 \<le> i" and "i < board_size w"
  shows "chess_board w 0 i 0" and "chess_board w i 0 3"
    and "chess_board w (board_size w - 1) i 2" and "chess_board w i (board_size w - 1) 1"
  using assms by (auto simp: border_walls_def list_all_iff)

lemma mirrored_wallsD:
  assumes "mirrored_walls w" and "check_boundary w p" and "0 \<le> d" and "d \<le> 3"
    and "check_boundary w (add_pos p (move_of d))"
  shows "chess_board w (fst (add_pos p (move_of d))) (snd (add_pos p (move_of d))) (opposite_of d)
         = chess_board w (fst p) (snd p) d"
proof -
  from assms(3,4) have "d \<in> set [0, 1, 2, 3]"
    using dir_cases [of d] by auto
  with assms(1,2,5) show ?thesis
    unfolding mirrored_walls_def list_all_iff cells_boundary [symmetric]
    by blast
qed

text \<open>A step across an open side of a cell of a bordered board stays on the board.\<close>

lemma open_step_on_board:
  assumes "border_walls w" and "check_boundary w p" and "0 \<le> d" and "d \<le> 3"
    and "\<not> chess_board w (fst p) (snd p) d"
  shows "check_boundary w (add_pos p (move_of d))"
proof -
  obtain r c where p: "p = (r, c)" by (cases p)
  from assms(2) have b: "0 \<le> r" "r < board_size w" "0 \<le> c" "c < board_size w"
    by (simp_all add: check_boundary_def p)
  from dir_cases [OF assms(3,4)] show ?thesis
  proof (elim disjE)
    assume "d = 0"
    with assms(5) border_wallsD(1) [OF assms(1) b(3,4)] have "r \<noteq> 0" by (auto simp: p)
    with b \<open>d = 0\<close> show ?thesis by (simp add: check_boundary_def p add_pos_def move_of_def)
  next
    assume "d = 1"
    with assms(5) border_wallsD(4) [OF assms(1) b(1,2)] have "c \<noteq> board_size w - 1"
      by (auto simp: p)
    with b \<open>d = 1\<close> show ?thesis by (simp add: check_boundary_def p add_pos_def move_of_def)
  next
    assume "d = 2"
    with assms(5) border_wallsD(3) [OF assms(1) b(3,4)] have "r \<noteq> board_size w - 1"
      by (auto simp: p)
    with b \<open>d = 2\<close> show ?thesis by (simp add: check_boundary_def p add_pos_def move_of_def)
  next
    assume "d = 3"
    with assms(5) border_wallsD(2) [OF assms(1) b(1,2)] have "c \<noteq> 0" by (auto simp: p)
    with b \<open>d = 3\<close> show ?thesis by (simp add: check_boundary_def p add_pos_def move_of_def)
  qed
qed

lemma dir_set: "d \<in> set [0, 1, 2, 3] \<longleftrightarrow> 0 \<le> d \<and> d \<le> (3::int)"
  by auto

lemma has_opening_iff:
  "has_opening w p \<longleftrightarrow> (\<exists>d. 0 \<le> d \<and> d \<le> 3 \<and> \<not> chess_board w (fst p) (snd p) d)"
  unfolding has_opening_def Bex_def dir_set by blast

lemma reachable_in_Suc:
  "reachable_in w adv (Suc n) a b \<longleftrightarrow>
     a = b \<or> (check_boundary w a \<and> (\<exists>d. 0 \<le> d \<and> d \<le> 3
        \<and> \<not> chess_board w (fst a) (snd a) d \<and> add_pos a (move_of d) \<noteq> adv
        \<and> reachable_in w adv n (add_pos a (move_of d)) b))"
  unfolding reachable_in.simps Bex_def dir_set by blast

declare reachable_in.simps(2) [simp del]

lemma reachable_in_refl: "reachable_in w adv n a a"
  by (cases n) (simp_all add: reachable_in_Suc del: reachable_in.simps(2))

lemma reachable_in_mono: "reachable_in w adv n a b \<Longrightarrow> n \<le> m \<Longrightarrow> reachable_in w adv m a b"
proof (induction n arbitrary: m a)
  case 0
  then show ?case by (simp add: reachable_in_refl)
next
  case (Suc n)
  then obtain m' where m: "m = Suc m'" "n \<le> m'" by (cases m) auto
  from Suc.prems(1) Suc.IH [OF _ m(2)] show ?case
    unfolding m(1) reachable_in_Suc by blast
qed

lemma walk_of_length_Suc:
  "walk_of_length w adv (Suc n) a b \<longleftrightarrow>
     check_boundary w a \<and> (\<exists>d. 0 \<le> d \<and> d \<le> 3
        \<and> \<not> chess_board w (fst a) (snd a) d \<and> add_pos a (move_of d) \<noteq> adv
        \<and> walk_of_length w adv n (add_pos a (move_of d)) b)"
  unfolding walk_of_length.simps Bex_def dir_set by blast

declare walk_of_length.simps(2) [simp del]

lemma walk_of_length_reachable:
  "walk_of_length w adv n a b \<Longrightarrow> reachable_in w adv n a b"
proof (induction n arbitrary: a)
  case 0
  then show ?case by simp
next
  case (Suc n)
  from Suc.prems Suc.IH show ?case
    unfolding walk_of_length_Suc reachable_in_Suc by blast
qed


section \<open>set_barrier\<close>

lemma set_barrier_in_range:
  assumes "check_boundary w (r, c)" and "0 \<le> dir" and "dir \<le> 3"
    and "check_boundary w (add_pos (r, c) (move_of dir))"
  shows "set_barrier w r c dir =
     Inr (w\<lparr>chess_board := (\<lambda>i j k.
            if i = r + fst (move_of dir) \<and> j = c + snd (move_of dir) \<and> k = opposite_of dir
            then True
            else if i = r \<and> j = c \<and> k = dir then True else chess_board w i j k)\<rparr>)"
  using assms opposite_of_range [of dir]
  by (simp add: set_barrier_def check_boundary_def add_pos_def board_set_in_range
      moves_dir opposites_dir)

text \<open>
  C7. For an in-bounds cell \<open>(r, c)\<close> and a direction \<open>dir\<close> whose neighbour is in bounds,
  \<open>set_barrier\<close> returns; afterwards the wall bit at \<open>(r, c, dir)\<close> and the bit of the
  neighbour in the opposite direction are set, every other bit of the board is as before,
  and so is every other attribute of the world.
\<close>

theorem set_barrier_mirror_frame:
  assumes "check_boundary w (r, c)" and "0 \<le> dir" and "dir \<le> 3"
    and "check_boundary w (add_pos (r, c) (move_of dir))"
  shows "\<exists>w'. set_barrier w r c dir = Inr w'
           \<and> chess_board w' r c dir
           \<and> chess_board w' (r + fst (move_of dir)) (c + snd (move_of dir)) (opposite_of dir)
           \<and> (\<forall>i j k. \<not> (i = r \<and> j = c \<and> k = dir)
                 \<and> \<not> (i = r + fst (move_of dir) \<and> j = c + snd (move_of dir)
                       \<and> k = opposite_of dir)
                 \<longrightarrow> chess_board w' i j k = chess_board w i j k)
           \<and> w' = w\<lparr>chess_board := chess_board w'\<rparr>"
  by (simp add: set_barrier_in_range [OF assms])

theorem set_barrier_mirror_frame_witness:
  "check_boundary (bordered_world 3 (0, 0) (2, 2)) (1, 1)
   \<and> check_boundary (bordered_world 3 (0, 0) (2, 2)) (add_pos (1, 1) (move_of 1))
   \<and> (\<exists>w'. set_barrier (bordered_world 3 (0, 0) (2, 2)) 1 1 1 = Inr w'
         \<and> chess_board w' 1 1 1 \<and> chess_board w' 1 2 3 \<and> \<not> chess_board w' 1 1 2)"
proof -
  let ?w = "bordered_world 3 (0, 0) (2, 2)"
  have b: "check_boundary ?w (1, 1)"
    by (simp add: check_boundary_def bordered_world_def)
  have n: "check_boundary ?w (add_pos (1, 1) (move_of 1))"
    by (simp add: check_boundary_def bordered_world_def add_pos_def move_of_def)
  obtain w' where w': "set_barrier ?w 1 1 1 = Inr w'" "chess_board w' 1 1 1"
      "chess_board w' (1 + fst (move_of 1)) (1 + snd (move_of 1)) (opposite_of 1)"
      "\<forall>i j k. \<not> (i = 1 \<and> j = 1 \<and> k = 1)
          \<and> \<not> (i = 1 + fst (move_of 1) \<and> j = 1 + snd (move_of 1) \<and> k = opposite_of 1)
          \<longrightarrow> chess_board w' i j k = chess_board ?w i j k"
    using set_barrier_mirror_frame [OF b _ _ n] by auto
  from w'(4) have "chess_board w' 1 1 2 = chess_board ?w 1 1 2"
    by (simp add: move_of_def opposite_of_def)
  then have "\<not> chess_board w' 1 1 2"
    by (simp add: bordered_world_def)
  with w'(1-3) b n show ?thesis
    by (simp add: move_of_def opposite_of_def)
qed

text \<open>
  C9, as the claim states it, fails: on the last row with direction down (2) the mirrored
  write is at row index \<open>board_size\<close>, which is out of range, and \<open>set_barrier\<close> raises
  IndexError. Here on the board of size 2, at the cell (1, 0).
\<close>

theorem set_barrier_last_row_down_counterexample:
  "set_barrier (bordered_world 2 (0, 0) (1, 1)) 1 0 2 = Inl IndexError"
  by (simp add: set_barrier_def board_set_def bordered_world_def moves_def opposites_def
      move_of_def opposite_of_def np_index_def)

text \<open>
  C9, amended. For a column (or row) index \<open>i\<close> that is in bounds: on row 0 with direction
  up, and on column 0 with direction left, \<open>set_barrier\<close> returns, the index -1 of the
  mirrored write wraps to the last row (column), and the bits set are the one asked for and
  the opposite one of the cell on the far edge, all others being as before; on the last
  row with direction down, and on the last column with direction right, the mirrored write
  is out of range and \<open>set_barrier\<close> raises IndexError.
\<close>

theorem set_barrier_on_border:
  assumes "0 \<le> i" and "i < board_size w"
  shows "(\<exists>w'. set_barrier w 0 i 0 = Inr w'
            \<and> (\<forall>a b k. chess_board w' a b k =
                  ((a = 0 \<and> b = i \<and> k = 0) \<or> (a = board_size w - 1 \<and> b = i \<and> k = 2)
                   \<or> chess_board w a b k)))
       \<and> (\<exists>w'. set_barrier w i 0 3 = Inr w'
            \<and> (\<forall>a b k. chess_board w' a b k =
                  ((a = i \<and> b = 0 \<and> k = 3) \<or> (a = i \<and> b = board_size w - 1 \<and> k = 1)
                   \<or> chess_board w a b k)))
       \<and> set_barrier w (board_size w - 1) i 2 = Inl IndexError
       \<and> set_barrier w i (board_size w - 1) 1 = Inl IndexError"
  using assms
  by (auto simp: set_barrier_def board_set_def moves_def opposites_def move_of_def
      opposite_of_def np_index_def)

theorem set_barrier_on_border_witness:
  "(0::int) \<le> 1 \<and> 1 < board_size (bordered_world 3 (0, 0) (2, 2))
   \<and> (\<exists>w'. set_barrier (bordered_world 3 (0, 0) (2, 2)) 0 1 0 = Inr w' \<and> chess_board w' 2 1 2)
   \<and> set_barrier (bordered_world 3 (0, 0) (2, 2)) 2 1 2 = Inl IndexError"
proof -
  let ?w = "bordered_world 3 (0, 0) (2, 2)"
  have n: "board_size ?w = 3"
    by (simp add: bordered_world_def)
  have h: "(0::int) \<le> 1" "1 < board_size ?w"
    by (simp_all add: n)
  from set_barrier_on_border [OF h] show ?thesis
    unfolding n by auto
qed


section \<open>check_valid_step: the wall at the destination\<close>

text \<open>
  C5. If the destination cell, in bounds, already has the wall bit set in the direction
  asked for (a border edge included), \<open>check_valid_step\<close> returns False, whatever the
  start position is: reachable or not, and also when it is the destination itself.
\<close>

theorem check_valid_step_wall_exists:
  assumes "check_boundary w end_pos" and "0 \<le> barrier_dir" and "barrier_dir \<le> 3"
    and "chess_board w (fst end_pos) (snd end_pos) barrier_dir"
  shows "check_valid_step w start_pos end_pos barrier_dir = Some (Inr False)"
  using assms
  by (simp add: check_valid_step_def check_boundary_def board_get_in_range)

theorem check_valid_step_wall_exists_witness:
  "check_boundary (bordered_world 3 (0, 0) (2, 2)) (0, 1)
   \<and> chess_board (bordered_world 3 (0, 0) (2, 2)) (fst (0, 1)) (snd (0, 1)) 0
   \<and> check_valid_step (bordered_world 3 (0, 0) (2, 2)) (0, 0) (0, 1) 0 = Some (Inr False)
   \<and> check_valid_step (bordered_world 3 (0, 0) (2, 2)) (0, 1) (0, 1) 0 = Some (Inr False)"
proof -
  let ?w = "bordered_world 3 (0, 0) (2, 2)"
  have b: "check_boundary ?w (0, 1)"
    by (simp add: check_boundary_def bordered_world_def)
  have c: "chess_board ?w (fst (0, 1)) (snd (0, 1)) 0"
    by (simp add: bordered_world_def)
  show ?thesis
    using b c check_valid_step_wall_exists [OF b _ _ c, of "(0, 0)"]
      check_valid_step_wall_exists [OF b _ _ c, of "(0, 1)"]
    by simp
qed


section \<open>random_walk\<close>

lemma allowed_dirs_filter:
  assumes "check_boundary w p" and "\<forall>d \<in> set ds. 0 \<le> d \<and> d \<le> 3"
  shows "allowed_dirs w p adv ds =
     Inr (filter (\<lambda>d. \<not> chess_board w (fst p) (snd p) d \<and> adv \<noteq> add_pos p (move_of d)) ds)"
  using assms
  by (induction ds) (auto simp: board_get_in_range check_boundary_def)

lemma allowed_barriers_filter:
  assumes "check_boundary w p" and "\<forall>d \<in> set ds. 0 \<le> d \<and> d \<le> 3"
  shows "allowed_barriers w p ds = Inr (filter (\<lambda>d. \<not> chess_board w (fst p) (snd p) d) ds)"
  using assms
  by (induction ds) (auto simp: board_get_in_range check_boundary_def)

lemma randint_range:
  assumes "low < high"
  shows "\<exists>i g'. randint low high g = Inr (i, g') \<and> low \<le> i \<and> i < high"
proof -
  from assms have p: "0 < high - low" by simp
  have "0 \<le> int (g 0) mod (high - low)" "int (g 0) mod (high - low) < high - low"
    using pos_mod_sign [OF p] pos_mod_bound [OF p] by simp_all
  with assms show ?thesis
    by (simp add: randint_def)
qed

lemma randint_index:
  assumes "xs \<noteq> []"
  shows "\<exists>i g'. randint 0 (int (length xs)) g = Inr (i, g') \<and> xs ! nat i \<in> set xs"
proof -
  from assms have "0 < int (length xs)" by simp
  from randint_range [OF this, of g] obtain i g' where
    "randint 0 (int (length xs)) g = Inr (i, g')" "0 \<le> i" "i < int (length xs)" by blast
  then show ?thesis by (auto intro!: nth_mem)
qed


lemma randint_source:
  assumes "randint low high g = Inr (i, g')"
  shows "g' = (\<lambda>j. g (Suc j))" and "i = low + int (g 0) mod (high - low)" and "low < high"
  using assms by (auto simp: randint_def split: if_splits)

lemma walk_steps_moves:
  assumes "border_walls w" and "mirrored_walls w"
  shows "check_boundary w p \<Longrightarrow> has_opening w p \<Longrightarrow>
     \<exists>p' g' n. walk_steps w adv k p g = Inr (p', g') \<and> check_boundary w p' \<and> has_opening w p'
        \<and> n \<le> k \<and> g' = (\<lambda>i. g (i + n)) \<and> walk_of_length w adv n p p'
        \<and> (n < k \<longrightarrow> \<not> (\<exists>d. okmove w adv p' d))"
proof (induction k arbitrary: p g)
  case 0
  have "g = (\<lambda>i. g (i + 0))" by simp
  with 0 show ?case by auto
next
  case (Suc k)
  define ds where
    "ds = filter (\<lambda>d. \<not> chess_board w (fst p) (snd p) d \<and> adv \<noteq> add_pos p (move_of d))
            [0, 1, 2, 3]"
  have ad: "allowed_dirs w p adv [0, 1, 2, 3] = Inr ds"
    unfolding ds_def by (rule allowed_dirs_filter [OF Suc.prems(1)]) simp
  have unf: "walk_steps w adv (Suc k) p g =
     (if length ds = 0 then Inr (p, g)
      else (case randint 0 (int (length ds)) g of
              Inl e \<Rightarrow> Inl e
            | Inr (i, g') \<Rightarrow> walk_steps w adv k (add_pos p (move_of (ds ! nat i))) g'))"
    by (simp only: walk_steps.simps ad sum.case)
  show ?case
  proof (cases "ds = []")
    case True
    with unf have r: "walk_steps w adv (Suc k) p g = Inr (p, g)" by simp
    have boxed: "\<not> (\<exists>d. okmove w adv p d)"
    proof
      assume "\<exists>d. okmove w adv p d"
      then obtain d where "okmove w adv p d" by blast
      then have "d \<in> set [0, 1, 2, 3]" "\<not> chess_board w (fst p) (snd p) d"
        "adv \<noteq> add_pos p (move_of d)"
        unfolding dir_set by (auto simp: okmove_def)
      then have "d \<in> set ds"
        unfolding ds_def set_filter by blast
      with True show False by simp
    qed
    have "g = (\<lambda>i. g (i + 0))" by simp
    with r Suc.prems boxed show ?thesis
      by (intro exI [of _ p] exI [of _ g] exI [of _ 0]) simp
  next
    case False
    from randint_index [OF False, of g] obtain i g' where
      i: "randint 0 (int (length ds)) g = Inr (i, g')" "ds ! nat i \<in> set ds" by blast
    note src = randint_source(1) [OF i(1)]
    define d where "d = ds ! nat i"
    define q where "q = add_pos p (move_of d)"
    from i(2) have "d \<in> set ds"
      by (simp only: d_def)
    then have "d \<in> set [0, 1, 2, 3]"
      and d3: "\<not> chess_board w (fst p) (snd p) d" and d4: "adv \<noteq> q"
      unfolding q_def ds_def set_filter by blast+
    then have d1: "0 \<le> d" and d2: "d \<le> 3"
      unfolding dir_set by blast+
    have q: "check_boundary w q"
      unfolding q_def by (rule open_step_on_board [OF assms(1) Suc.prems(1) d1 d2 d3])
    have "\<not> chess_board w (fst q) (snd q) (opposite_of d)"
      using mirrored_wallsD [OF assms(2) Suc.prems(1) d1 d2 q [unfolded q_def]] d3
      unfolding q_def by simp
    with opposite_of_range [OF d1 d2] have o: "has_opening w q"
      unfolding has_opening_iff by blast
    from Suc.IH [OF q o, of g'] obtain p' g'' n where
      r: "walk_steps w adv k q g' = Inr (p', g'')" "check_boundary w p'" "has_opening w p'"
        "n \<le> k" "g'' = (\<lambda>i. g' (i + n))" "walk_of_length w adv n q p'"
        "n < k \<longrightarrow> \<not> (\<exists>d. okmove w adv p' d)" by blast
    from d1 d2 d3 d4 r(6) Suc.prems(1) have re: "walk_of_length w adv (Suc n) p p'"
      unfolding walk_of_length_Suc q_def by blast
    have eq: "walk_steps w adv (Suc k) p g = Inr (p', g'')"
      unfolding unf q_def [symmetric] d_def [symmetric] using False i(1) r(1)
      by (simp add: d_def [symmetric] q_def [symmetric])
    have g'': "g'' = (\<lambda>i. g (i + Suc n))"
      unfolding r(5) src by simp
    from r(4,7) have "Suc n \<le> Suc k" "Suc n < Suc k \<longrightarrow> \<not> (\<exists>d. okmove w adv p' d)"
      by simp_all
    with eq r(2,3) g'' re show ?thesis
      by (intro exI [of _ p'] exI [of _ g''] exI [of _ "Suc n"]) simp
  qed
qed

lemma walk_steps_enclosed:
  assumes "check_boundary w p" and "\<not> has_opening w p"
  shows "walk_steps w adv k p g = Inr (p, g)"
proof (cases k)
  case 0
  then show ?thesis by simp
next
  case (Suc k')
  have "allowed_dirs w p adv [0, 1, 2, 3] =
      Inr (filter (\<lambda>d. \<not> chess_board w (fst p) (snd p) d \<and> adv \<noteq> add_pos p (move_of d))
             [0, 1, 2, 3])"
    by (rule allowed_dirs_filter [OF assms(1)]) simp
  moreover from assms(2)
  have "filter (\<lambda>d. \<not> chess_board w (fst p) (snd p) d \<and> adv \<noteq> add_pos p (move_of d))
          [0, 1, 2, 3] = []"
    unfolding has_opening_def filter_empty_conv by blast
  ultimately have "allowed_dirs w p adv [0, 1, 2, 3] = Inr []"
    by (simp only:)
  then show ?thesis
    unfolding Suc by (simp del: allowed_dirs.simps)
qed

lemma random_walk_open:
  assumes "border_walls w" and "mirrored_walls w" and "check_boundary w my_pos"
    and "0 \<le> max_step w" and "has_opening w my_pos"
  shows "\<exists>steps g1 n pos dir g'.
           randint 0 (max_step w + 1) g = Inr (steps, g1) \<and> 0 \<le> steps \<and> steps \<le> max_step w
         \<and> random_walk w my_pos adv_pos g = Inr ((pos, dir), g')
         \<and> n \<le> nat steps \<and> g' = (\<lambda>i. g (i + n + 2))
         \<and> (n < nat steps \<longrightarrow> \<not> (\<exists>d. okmove w adv_pos pos d))
         \<and> walk_of_length w adv_pos n my_pos pos
         \<and> reachable_in w adv_pos n my_pos pos
         \<and> reachable_in w adv_pos (nat steps) my_pos pos
         \<and> reachable_in w adv_pos (nat (max_step w)) my_pos pos
         \<and> check_boundary w pos \<and> 0 \<le> dir \<and> dir \<le> 3
         \<and> \<not> chess_board w (fst pos) (snd pos) dir"
proof -
  from assms(4) have "0 < max_step w + 1" by simp
  from randint_range [OF this, of g] obtain steps g1 where
    s: "randint 0 (max_step w + 1) g = Inr (steps, g1)" "0 \<le> steps" "steps < max_step w + 1"
    by blast
  note g1 = randint_source(1) [OF s(1)]
  from walk_steps_moves [OF assms(1,2,3,5), of adv_pos "nat steps" g1] obtain pos g2 n where
    p: "walk_steps w adv_pos (nat steps) my_pos g1 = Inr (pos, g2)" "check_boundary w pos"
      "has_opening w pos" "n \<le> nat steps" "g2 = (\<lambda>i. g1 (i + n))"
      "walk_of_length w adv_pos n my_pos pos"
      "n < nat steps \<longrightarrow> \<not> (\<exists>d. okmove w adv_pos pos d)" by blast
  note reach = walk_of_length_reachable [OF p(6)]
  define bs where "bs = filter (\<lambda>d. \<not> chess_board w (fst pos) (snd pos) d) [0, 1, 2, 3]"
  have ab: "allowed_barriers w pos [0, 1, 2, 3] = Inr bs"
    unfolding bs_def by (rule allowed_barriers_filter [OF p(2)]) simp
  from p(3) have ne: "bs \<noteq> []"
    unfolding bs_def has_opening_def filter_empty_conv by blast
  from randint_index [OF ne, of g2] obtain i g3 where
    i: "randint 0 (int (length bs)) g2 = Inr (i, g3)" "bs ! nat i \<in> set bs" by blast
  note g3 = randint_source(1) [OF i(1)]
  define dir where "dir = bs ! nat i"
  from i(2) have "dir \<in> set bs" by (simp only: dir_def)
  then have "dir \<in> set [0, 1, 2, 3]" and free: "\<not> chess_board w (fst pos) (snd pos) dir"
    unfolding bs_def set_filter by blast+
  then have dir: "0 \<le> dir" "dir \<le> 3"
    unfolding dir_set by blast+
  from ne have "1 \<le> length bs"
    by (cases bs) simp_all
  then have rw: "random_walk w my_pos adv_pos g = Inr ((pos, dir), g3)"
    unfolding random_walk_def dir_def
    by (simp add: s(1) p(1) ab i(1) del: allowed_barriers.simps)
  have src: "g3 = (\<lambda>i. g (i + n + 2))"
    unfolding g3 p(5) g1 by simp
  from p(4) reach have rs: "reachable_in w adv_pos (nat steps) my_pos pos"
    by (rule reachable_in_mono [rotated])
  from rs s(2,3) have "reachable_in w adv_pos (nat (max_step w)) my_pos pos"
    by (auto elim: reachable_in_mono)
  with s rw src p(2,4,6,7) reach rs dir free show ?thesis
    by (intro exI [of _ steps] exI [of _ g1] exI [of _ n] exI [of _ pos] exI [of _ dir]
        exI [of _ g3]) simp
qed


lemma random_walk_enclosed:
  assumes "check_boundary w my_pos" and "0 \<le> max_step w" and "\<not> has_opening w my_pos"
  shows "random_walk w my_pos adv_pos g = Inl AssertionError"
proof -
  from assms(2) have "0 < max_step w + 1" by simp
  from randint_range [OF this, of g] obtain steps g1 where
    s: "randint 0 (max_step w + 1) g = Inr (steps, g1)" by blast
  have ab: "allowed_barriers w my_pos [0, 1, 2, 3] =
      Inr (filter (\<lambda>d. \<not> chess_board w (fst my_pos) (snd my_pos) d) [0, 1, 2, 3])"
    by (rule allowed_barriers_filter [OF assms(1)]) simp
  from assms(3) have "filter (\<lambda>d. \<not> chess_board w (fst my_pos) (snd my_pos) d) [0, 1, 2, 3] = []"
    unfolding has_opening_def filter_empty_conv by blast
  with ab have "allowed_barriers w my_pos [0, 1, 2, 3] = Inr []" by simp
  then show ?thesis
    unfolding random_walk_def
    by (simp add: s walk_steps_enclosed [OF assms(1,3)] del: allowed_barriers.simps)
qed

lemma mod_count:
  assumes "k < M"
  shows "card {r::nat. r < K * M \<and> r mod M = k} = K"
proof -
  have "{r. r < K * M \<and> r mod M = k} = (\<lambda>j. j * M + k) ` {..<K}"
  proof (intro set_eqI iffI)
    fix r assume "r \<in> {r. r < K * M \<and> r mod M = k}"
    then have r: "r < K * M" "r mod M = k" by simp_all
    from r(1) have "r div M < K"
      by (rule less_mult_imp_div_less)
    moreover from r(2) have "r = r div M * M + k"
      by (metis div_mult_mod_eq)
    ultimately show "r \<in> (\<lambda>j. j * M + k) ` {..<K}"
      by blast
  next
    fix r assume "r \<in> (\<lambda>j. j * M + k) ` {..<K}"
    then obtain j where j: "j < K" "r = j * M + k" by blast
    from j(1) have "Suc j * M \<le> K * M"
      by (intro mult_le_mono1) simp
    with assms j(2) have "r < K * M" by simp
    moreover from assms j(2) have "r mod M = k" by simp
    ultimately show "r \<in> {r. r < K * M \<and> r mod M = k}" by simp
  qed
  moreover have "inj_on (\<lambda>j. j * M + k) {..<K}"
    using assms by (intro inj_onI) simp
  ultimately show ?thesis
    by (simp add: card_image)
qed

lemma randint_steps_uniform:
  assumes "0 \<le> m" and "0 \<le> k" and "k \<le> m"
  shows "card {r. r < K * nat (m + 1)
           \<and> (\<forall>g0. g0 0 = r \<longrightarrow> (\<exists>g1. randint 0 (m + 1) g0 = Inr (k, g1)))} = K"
proof -
  have "(\<forall>g0. g0 0 = r \<longrightarrow> (\<exists>g1. randint 0 (m + 1) g0 = Inr (k, g1)))
        \<longleftrightarrow> r mod nat (m + 1) = nat k" for r :: nat
  proof
    assume all: "\<forall>g0. g0 0 = r \<longrightarrow> (\<exists>g1. randint 0 (m + 1) g0 = Inr (k, g1))"
    from all [rule_format, of "\<lambda>i. r"] obtain g1 where
      "randint 0 (m + 1) (\<lambda>i. r) = Inr (k, g1)" by auto
    from randint_source(2) [OF this] have "k = int r mod (m + 1)" by simp
    moreover have "int (r mod nat (m + 1)) = int r mod (m + 1)"
      using assms(1) by (simp add: zmod_int)
    ultimately show "r mod nat (m + 1) = nat k" by simp
  next
    assume a: "r mod nat (m + 1) = nat k"
    have "int (r mod nat (m + 1)) = int r mod (m + 1)"
      using assms(1) by (simp add: zmod_int)
    with a assms(2) have "int r mod (m + 1) = k" by simp
    with assms(1) show "\<forall>g0. g0 0 = r \<longrightarrow> (\<exists>g1. randint 0 (m + 1) g0 = Inr (k, g1))"
      by (simp add: randint_def)
  qed
  then have "{r. r < K * nat (m + 1)
           \<and> (\<forall>g0. g0 0 = r \<longrightarrow> (\<exists>g1. randint 0 (m + 1) g0 = Inr (k, g1)))}
      = {r. r < K * nat (m + 1) \<and> r mod nat (m + 1) = nat k}"
    by simp
  moreover from assms have "nat k < nat (m + 1)" by simp
  ultimately show ?thesis
    by (simp only: mod_count)
qed

text \<open>
  C8. On a board with its border walls and mirrored walls, for a mover on the board and a
  move budget that is not negative: if the mover's cell has a direction without a wall,
  \<open>random_walk\<close> returns a position and a direction. Its first draw from the random
  source is the step count, \<open>randint(0, max_step + 1)\<close>, which lies in \<open>[0, max_step]\<close>;
  the walk then makes \<open>n\<close> moves with one draw each, where \<open>n\<close> is the step count unless
  the walk stops before at a cell from which no move is allowed, and one last draw chooses
  the wall, so that the source is left \<open>n + 2\<close> draws further. The position is the end
  of a walk of exactly \<open>n\<close> steps from the start, hence reachable within \<open>max_step\<close>
  steps, without crossing a wall or entering the adversary's cell, and the wall bit of the direction is not set at that
  position. If all four sides of the mover's cell are walled, the assertion fails. The
  step count is uniform over \<open>[0, max_step]\<close>: for every \<open>K\<close>, among the raw values below
  \<open>K * (max_step + 1)\<close> that the source can deliver next, exactly \<open>K\<close> give each step
  count of that range.
\<close>

theorem random_walk_legal:
  assumes "border_walls w" and "mirrored_walls w" and "check_boundary w my_pos"
    and "0 \<le> max_step w"
  shows "(if has_opening w my_pos
          then \<exists>steps g1 n pos dir g'.
                 randint 0 (max_step w + 1) g = Inr (steps, g1)
               \<and> 0 \<le> steps \<and> steps \<le> max_step w
               \<and> random_walk w my_pos adv_pos g = Inr ((pos, dir), g')
               \<and> n \<le> nat steps \<and> g' = (\<lambda>i. g (i + n + 2))
               \<and> (n < nat steps \<longrightarrow> \<not> (\<exists>d. okmove w adv_pos pos d))
               \<and> walk_of_length w adv_pos n my_pos pos
               \<and> reachable_in w adv_pos n my_pos pos
               \<and> reachable_in w adv_pos (nat steps) my_pos pos
               \<and> reachable_in w adv_pos (nat (max_step w)) my_pos pos
               \<and> check_boundary w pos \<and> 0 \<le> dir \<and> dir \<le> 3
               \<and> \<not> chess_board w (fst pos) (snd pos) dir
          else random_walk w my_pos adv_pos g = Inl AssertionError)
       \<and> (\<forall>K k. 0 \<le> k \<and> k \<le> max_step w \<longrightarrow>
            card {r. r < K * nat (max_step w + 1)
                   \<and> (\<forall>g0. g0 0 = r \<longrightarrow>
                         (\<exists>g1. randint 0 (max_step w + 1) g0 = Inr (k, g1)))} = K)"
proof (intro conjI allI impI)
  show "if has_opening w my_pos
        then \<exists>steps g1 n pos dir g'.
               randint 0 (max_step w + 1) g = Inr (steps, g1)
             \<and> 0 \<le> steps \<and> steps \<le> max_step w
             \<and> random_walk w my_pos adv_pos g = Inr ((pos, dir), g')
             \<and> n \<le> nat steps \<and> g' = (\<lambda>i. g (i + n + 2))
             \<and> (n < nat steps \<longrightarrow> \<not> (\<exists>d. okmove w adv_pos pos d))
             \<and> walk_of_length w adv_pos n my_pos pos
             \<and> reachable_in w adv_pos n my_pos pos
             \<and> reachable_in w adv_pos (nat steps) my_pos pos
             \<and> reachable_in w adv_pos (nat (max_step w)) my_pos pos
             \<and> check_boundary w pos \<and> 0 \<le> dir \<and> dir \<le> 3
             \<and> \<not> chess_board w (fst pos) (snd pos) dir
        else random_walk w my_pos adv_pos g = Inl AssertionError"
  proof (cases "has_opening w my_pos")
    case True
    from random_walk_open [OF assms True] show ?thesis
      by (simp only: True if_True)
  next
    case False
    from random_walk_enclosed [OF assms(3,4) False] show ?thesis
      by (simp only: False if_False)
  qed
next
  fix K k assume "0 \<le> k \<and> k \<le> max_step w"
  then have "0 \<le> k" "k \<le> max_step w" by simp_all
  from randint_steps_uniform [OF assms(4) this]
  show "card {r. r < K * nat (max_step w + 1)
          \<and> (\<forall>g0. g0 0 = r \<longrightarrow> (\<exists>g1. randint 0 (max_step w + 1) g0 = Inr (k, g1)))} = K" .
qed

lemma bordered_world_3_ok:
  "border_walls (bordered_world 3 a b)" "mirrored_walls (bordered_world 3 a b)"
  by (simp_all add: border_walls_def mirrored_walls_def bordered_world_def cells_def
      check_boundary_def add_pos_def move_of_def opposite_of_def upto.simps)

lemma bordered_world_1_ok:
  "border_walls (bordered_world 1 a b)" "mirrored_walls (bordered_world 1 a b)"
  by (simp_all add: border_walls_def mirrored_walls_def bordered_world_def cells_def
      check_boundary_def add_pos_def move_of_def opposite_of_def upto.simps)

theorem random_walk_legal_witness:
  "border_walls (bordered_world 3 (0, 0) (2, 2)) \<and> mirrored_walls (bordered_world 3 (0, 0) (2, 2))
   \<and> check_boundary (bordered_world 3 (0, 0) (2, 2)) (0, 0)
   \<and> 0 \<le> max_step (bordered_world 3 (0, 0) (2, 2))
   \<and> has_opening (bordered_world 3 (0, 0) (2, 2)) (0, 0)
   \<and> (\<exists>pos dir g' n.
         random_walk (bordered_world 3 (0, 0) (2, 2)) (0, 0) (2, 2) (const_rng 1)
           = Inr ((pos, dir), g')
       \<and> n \<le> 1 \<and> reachable_in (bordered_world 3 (0, 0) (2, 2)) (2, 2) n (0, 0) pos
       \<and> reachable_in (bordered_world 3 (0, 0) (2, 2)) (2, 2) 2 (0, 0) pos
       \<and> \<not> chess_board (bordered_world 3 (0, 0) (2, 2)) (fst pos) (snd pos) dir)
   \<and> card {r. r < 5 * nat (max_step (bordered_world 3 (0, 0) (2, 2)) + 1)
             \<and> (\<forall>g0. g0 0 = r \<longrightarrow>
                   (\<exists>g1. randint 0 (max_step (bordered_world 3 (0, 0) (2, 2)) + 1) g0
                            = Inr (1, g1)))} = 5
   \<and> \<not> has_opening (bordered_world 1 (0, 0) (0, 0)) (0, 0)
   \<and> random_walk (bordered_world 1 (0, 0) (0, 0)) (0, 0) (0, 0) (const_rng 1)
        = Inl AssertionError"
proof -
  let ?w = "bordered_world 3 (0, 0) (2, 2)"
  let ?v = "bordered_world 1 (0, 0) (0, 0)"
  have b: "check_boundary ?w (0, 0)" and m: "0 \<le> max_step ?w" and ms: "max_step ?w = 2"
    by (simp_all add: check_boundary_def bordered_world_def max_step_of_def)
  have o: "has_opening ?w (0, 0)"
    by (simp add: has_opening_def bordered_world_def)
  have b1: "check_boundary ?v (0, 0)" and m1: "0 \<le> max_step ?v"
    by (simp_all add: check_boundary_def bordered_world_def max_step_of_def)
  have o1: "\<not> has_opening ?v (0, 0)"
    by (simp add: has_opening_def bordered_world_def)
  note T = random_walk_legal [OF bordered_world_3_ok b m,
      where adv_pos = "(2, 2)" and g = "const_rng 1"]
  from T [THEN conjunct1] o obtain steps g1 n pos dir g' where
    s: "randint 0 (max_step ?w + 1) (const_rng 1) = Inr (steps, g1)"
    and r: "random_walk ?w (0, 0) (2, 2) (const_rng 1) = Inr ((pos, dir), g')"
      "n \<le> nat steps" "reachable_in ?w (2, 2) n (0, 0) pos"
      "reachable_in ?w (2, 2) (nat (max_step ?w)) (0, 0) pos"
      "\<not> chess_board ?w (fst pos) (snd pos) dir"
    by (simp only: if_True) blast
  from randint_source(2) [OF s] have "steps = 1"
    by (simp add: ms const_rng_def)
  with r(2) have n: "n \<le> 1" by simp
  from r(4) have r2: "reachable_in ?w (2, 2) 2 (0, 0) pos"
    by (simp add: ms)
  have walk: "\<exists>pos dir g' n.
         random_walk ?w (0, 0) (2, 2) (const_rng 1) = Inr ((pos, dir), g')
       \<and> n \<le> 1 \<and> reachable_in ?w (2, 2) n (0, 0) pos
       \<and> reachable_in ?w (2, 2) 2 (0, 0) pos
       \<and> \<not> chess_board ?w (fst pos) (snd pos) dir"
    using r(1,3,5) n r2 by blast
  have k: "(0::int) \<le> 1 \<and> 1 \<le> max_step ?w"
    by (simp add: ms)
  from T [THEN conjunct2, rule_format, of 1 5, OF k]
  have cnt: "card {r. r < 5 * nat (max_step ?w + 1)
             \<and> (\<forall>g0. g0 0 = r \<longrightarrow>
                   (\<exists>g1. randint 0 (max_step ?w + 1) g0 = Inr (1, g1)))} = 5" .
  from random_walk_legal [OF bordered_world_1_ok b1 m1,
      where adv_pos = "(0, 0)" and g = "const_rng 1", THEN conjunct1] o1
  have "random_walk ?v (0, 0) (0, 0) (const_rng 1) = Inl AssertionError"
    by (simp only: if_False)
  with bordered_world_3_ok b m o o1 walk cnt show ?thesis
    by blast
qed


section \<open>step\<close>

text \<open>
  When the call of the agent raises, nothing is assigned to \<open>time_taken\<close>, and whatever
  the handler does, \<open>step\<close> raises: SystemExit from \<open>sys.exit\<close>, the exception of
  \<open>random_walk\<close>, or else the one of the log message.
\<close>

lemma apply_move_unbound:
  "\<exists>e. apply_move w None next_pos dir = Some (Inl e)"
  by (simp add: apply_move_def)

lemma step_agent_raises:
  "\<exists>e. step w (Raises ex_type) g = Some (Inl e)"
proof -
  let ?cur = "if turn w = 0 then p0_pos w else p1_pos w"
  let ?adv = "if turn w = 0 then p1_pos w else p0_pos w"
  let ?pl = "if turn w = 0 then p0 w else p1 w"
  show ?thesis
  proof (cases "handle_exception w ?pl ?cur ?adv ex_type g")
    case (Inl e)
    then show ?thesis
      by (simp add: step_def try_move_def)
  next
    case (Inr r)
    obtain next_pos dir g' where r: "r = ((next_pos, dir), g')"
      by (cases r) auto
    from apply_move_unbound [of w next_pos dir] obtain e where
      "apply_move w None next_pos dir = Some (Inl e)" by blast
    with Inr r show ?thesis
      by (simp add: step_def try_move_def)
  qed
qed

lemma step_agent_raises_unbound:
  assumes "\<not> contains ''SystemExit'' ex_type" and "\<not> contains ''KeyboardInterrupt'' ex_type"
    and "turn w = 0"
    and "random_walk w (p0_pos w) (p1_pos w) g = Inr ((next_pos, dir), g')"
    and "0 \<le> dir" and "dir \<le> 3"
  shows "step w (Raises ex_type) g = Some (Inl UnboundLocalError)"
  using assms dir_cases [of dir]
  by (auto simp: step_def try_move_def handle_exception_def apply_move_def)

text \<open>
  C1, at the failing input: the board of size 3 with the border walls only, the players
  in opposite corners, player 0 to move, and an agent whose \<open>step\<close> raises ValueError.
  The handler runs \<open>random_walk\<close>, which returns a move, and the log message then reads
  the unbound local \<open>time_taken\<close>: \<open>World.step\<close> raises UnboundLocalError.
\<close>

theorem step_agent_raises_unbound_local:
  "step (bordered_world 3 (0, 0) (2, 2)) (Raises ''ValueError'') (const_rng 1)
     = Some (Inl UnboundLocalError)"
proof -
  let ?s = "step (bordered_world 3 (0, 0) (2, 2)) (Raises ''ValueError'') (const_rng 1)"
  from step_agent_raises obtain e where e: "?s = Some (Inl e)"
    by blast
  have "map_option (map_sum id (fst \<circ> snd)) ?s = Some (Inl UnboundLocalError)"
    by code_simp
  with e show ?thesis
    by simp
qed

text \<open>
  On the same world a move out of the board is replaced by the random walk, and the turn
  completes with the endgame triple: this path of the handler works, \<open>time_taken\<close>
  having been assigned before the move was checked.
\<close>

lemma step_invalid_move_falls_back:
  "map_option (map_sum id (fst \<circ> snd))
     (step (bordered_world 3 (0, 0) (2, 2)) (Returns [0, 5] 2 7) (const_rng 1))
   = Some (Inr (False, 9, 9))"
  by code_simp


section \<open>check_valid_step: the search\<close>

lemma reachable_in_Suc_ok:
  "reachable_in w adv (Suc n) a b \<longleftrightarrow>
     a = b \<or> (check_boundary w a \<and> (\<exists>d. okmove w adv a d
        \<and> reachable_in w adv n (add_pos a (move_of d)) b))"
  unfolding reachable_in_Suc okmove_def by blast

lemma reachable_in_snoc:
  "reachable_in w adv n s a \<Longrightarrow> check_boundary w a \<Longrightarrow> okmove w adv a d
   \<Longrightarrow> reachable_in w adv (Suc n) s (add_pos a (move_of d))"
proof (induction n arbitrary: s)
  case 0
  then have "s = a" by simp
  with 0 show ?case
    unfolding reachable_in_Suc_ok by auto
next
  case (Suc n)
  from Suc.prems(1) consider "s = a"
    | d' where "check_boundary w s" "okmove w adv s d'"
        "reachable_in w adv n (add_pos s (move_of d')) a"
    unfolding reachable_in_Suc_ok by blast
  then show ?case
  proof cases
    case 1
    have "reachable_in w adv (Suc n) (add_pos a (move_of d)) (add_pos a (move_of d))"
      by (rule reachable_in_refl)
    with 1 Suc.prems(2,3) show ?thesis
      unfolding reachable_in_Suc_ok [of w adv "Suc n"] by blast
  next
    case 2
    from Suc.IH [OF 2(3) Suc.prems(2,3)] 2(1,2) show ?thesis
      unfolding reachable_in_Suc_ok [of w adv "Suc n"] by blast
  qed
qed

lemma search_invD:
  assumes "search_inv w adv e s L t pend Q V"
  shows "s \<in> V" and "L s = 0" and "e \<notin> V" and "0 \<le> t"
    and "\<And>p. p \<in> V \<Longrightarrow> check_boundary w p \<and> 0 \<le> L p \<and> L p \<le> t + 1 \<and> L p \<le> max_step w
            \<and> reachable_in w adv (nat (L p)) s p"
    and "\<And>p u. (p, u) \<in> set Q \<Longrightarrow> p \<in> V \<and> L p = u \<and> t \<le> u"
    and "sorted (map snd Q)"
    and "\<And>p d. p \<in> V \<Longrightarrow> okmove w adv p d \<Longrightarrow>
            add_pos p (move_of d) \<in> V \<or> p \<in> fst ` set Q \<or> (p, d) \<in> pend"
    and "\<And>p d. p \<in> V \<Longrightarrow> okmove w adv p d \<Longrightarrow> add_pos p (move_of d) \<in> V \<Longrightarrow>
            L (add_pos p (move_of d)) \<le> L p + 1"
    and "\<And>p d. (p, d) \<in> pend \<Longrightarrow> p \<in> V \<and> L p = t"
  using assms unfolding search_inv_def by blast+

lemma search_invI:
  assumes "s \<in> V" and "L s = 0" and "e \<notin> V" and "0 \<le> t"
    and "\<And>p. p \<in> V \<Longrightarrow> check_boundary w p \<and> 0 \<le> L p \<and> L p \<le> t + 1 \<and> L p \<le> max_step w
            \<and> reachable_in w adv (nat (L p)) s p"
    and "\<And>p u. (p, u) \<in> set Q \<Longrightarrow> p \<in> V \<and> L p = u \<and> t \<le> u"
    and "sorted (map snd Q)"
    and "\<And>p d. p \<in> V \<Longrightarrow> okmove w adv p d \<Longrightarrow>
            add_pos p (move_of d) \<in> V \<or> p \<in> fst ` set Q \<or> (p, d) \<in> pend"
    and "\<And>p d. p \<in> V \<Longrightarrow> okmove w adv p d \<Longrightarrow> add_pos p (move_of d) \<in> V \<Longrightarrow>
            L (add_pos p (move_of d)) \<le> L p + 1"
    and "\<And>p d. (p, d) \<in> pend \<Longrightarrow> p \<in> V \<and> L p = t"
  shows "search_inv w adv e s L t pend Q V"
  unfolding search_inv_def using assms by blast

text \<open>No cell of the search is a way to the end position once nothing is left to expand
  below the budget.\<close>

lemma search_blocked:
  assumes inv: "search_inv w adv e s L t {} Q V"
    and full: "\<forall>(p, u) \<in> set Q. max_step w \<le> u"
  shows "a \<in> V \<Longrightarrow> L a + int n \<le> max_step w \<Longrightarrow> \<not> reachable_in w adv n a e"
proof (induction n arbitrary: a)
  case 0
  with search_invD(3) [OF inv] show ?case by auto
next
  case (Suc n)
  from search_invD(3) [OF inv] Suc.prems(1) have ne: "a \<noteq> e" by auto
  show ?case
  proof
    assume "reachable_in w adv (Suc n) a e"
    with ne obtain d where d: "okmove w adv a d" "reachable_in w adv n (add_pos a (move_of d)) e"
      unfolding reachable_in_Suc_ok by blast
    have "a \<notin> fst ` set Q"
    proof
      assume "a \<in> fst ` set Q"
      then obtain u where u: "(a, u) \<in> set Q" by auto
      with search_invD(6) [OF inv] have "L a = u" by simp
      moreover from full u have "max_step w \<le> u" by auto
      ultimately show False using Suc.prems(2) by simp
    qed
    with search_invD(8) [OF inv Suc.prems(1) d(1)] have v: "add_pos a (move_of d) \<in> V"
      by simp
    from search_invD(9) [OF inv Suc.prems(1) d(1) v]
    have "L (add_pos a (move_of d)) \<le> L a + 1" .
    with Suc.prems(2) have "L (add_pos a (move_of d)) + int n \<le> max_step w" by simp
    from Suc.IH [OF v this] d(2) show False by simp
  qed
qed

lemma search_inv_init:
  assumes "check_boundary w s" and "0 \<le> max_step w" and "e \<noteq> s"
  shows "search_inv w adv e s (\<lambda>p. 0) 0 {} [(s, 0)] {s}"
  using assms by (simp add: search_inv_def)


lemma search_inv_skip:
  assumes inv: "search_inv w adv e s L t (insert (cur, d) pend) Q V"
    and skip: "\<not> okmove w adv cur d \<or> add_pos cur (move_of d) \<in> V"
  shows "search_inv w adv e s L t pend Q V"
proof (rule search_invI)
  note D = search_invD [OF inv]
  show "s \<in> V" "L s = 0" "e \<notin> V" "0 \<le> t" "sorted (map snd Q)"
    by (rule D)+
  show "check_boundary w p \<and> 0 \<le> L p \<and> L p \<le> t + 1 \<and> L p \<le> max_step w
          \<and> reachable_in w adv (nat (L p)) s p" if "p \<in> V" for p
    using that by (rule D(5))
  show "p \<in> V \<and> L p = u \<and> t \<le> u" if "(p, u) \<in> set Q" for p u
    using that by (rule D(6))
  show "add_pos p (move_of d') \<in> V \<or> p \<in> fst ` set Q \<or> (p, d') \<in> pend"
    if "p \<in> V" "okmove w adv p d'" for p d'
    using D(8) [OF that] skip that(2) by auto
  show "L (add_pos p (move_of d')) \<le> L p + 1"
    if "p \<in> V" "okmove w adv p d'" "add_pos p (move_of d') \<in> V" for p d'
    using that by (rule D(9))
  show "p \<in> V \<and> L p = t" if "(p, d') \<in> pend" for p d'
    using D(10) [of p d'] that by simp
qed

lemma search_inv_add:
  assumes inv: "search_inv w adv e s L t (insert (cur, d) pend) Q V"
    and bw: "border_walls w"
    and cur: "cur \<in> V" "L cur = t" "t < max_step w"
    and ok: "okmove w adv cur d"
    and y: "y = add_pos cur (move_of d)" "y \<notin> V" "y \<noteq> e"
  shows "search_inv w adv e s (L(y := t + 1)) t pend (Q @ [(y, t + 1)]) (insert y V)"
proof (rule search_invI)
  note D = search_invD [OF inv]
  have Lold: "\<And>p. p \<in> V \<Longrightarrow> (L(y := t + 1)) p = L p"
    using y(2) by auto
  show "s \<in> insert y V" using D(1) by simp
  show "(L(y := t + 1)) s = 0" using D(1,2) Lold by simp
  show "e \<notin> insert y V" using D(3) y(3) by simp
  show "0 \<le> t" by (rule D(4))
  have ycell: "check_boundary w y"
    unfolding y(1) using open_step_on_board [OF bw _ _ _ _] D(5) [OF cur(1)] ok
    by (simp add: okmove_def)
  have "reachable_in w adv (Suc (nat t)) s y"
    unfolding y(1) using reachable_in_snoc [of w adv "nat t" s cur d] D(5) [OF cur(1)] ok cur(2)
    by simp
  moreover have "Suc (nat t) = nat (t + 1)" using D(4) by simp
  ultimately have yreach: "reachable_in w adv (nat (t + 1)) s y" by simp
  show "check_boundary w p \<and> 0 \<le> (L(y := t + 1)) p \<and> (L(y := t + 1)) p \<le> t + 1
          \<and> (L(y := t + 1)) p \<le> max_step w
          \<and> reachable_in w adv (nat ((L(y := t + 1)) p)) s p" if "p \<in> insert y V" for p
  proof (cases "p = y")
    case True
    with ycell yreach D(4) cur(3) show ?thesis by simp
  next
    case False
    with that have "p \<in> V" by simp
    from D(5) [OF this] False show ?thesis by simp
  qed
  show "p \<in> insert y V \<and> (L(y := t + 1)) p = u \<and> t \<le> u" if "(p, u) \<in> set (Q @ [(y, t + 1)])" for p u
  proof (cases "(p, u) \<in> set Q")
    case True
    from D(6) [OF this] Lold show ?thesis by simp
  next
    case False
    with that have "p = y" "u = t + 1" by simp_all
    then show ?thesis by simp
  qed
  have "\<And>u. u \<in> snd ` set Q \<Longrightarrow> u \<le> t + 1"
  proof -
    fix u assume "u \<in> snd ` set Q"
    then obtain p where "(p, u) \<in> set Q" by auto
    from D(6) [OF this] D(5) [of p] show "u \<le> t + 1" by auto
  qed
  with D(7) show "sorted (map snd (Q @ [(y, t + 1)]))"
    by (simp add: sorted_append)
  show "add_pos p (move_of d') \<in> insert y V \<or> p \<in> fst ` set (Q @ [(y, t + 1)]) \<or> (p, d') \<in> pend"
    if "p \<in> insert y V" "okmove w adv p d'" for p d'
  proof (cases "p = y")
    case True
    then show ?thesis by simp
  next
    case False
    with that have "p \<in> V" by simp
    from D(8) [OF this that(2)] y(1) show ?thesis by auto
  qed
  show "(L(y := t + 1)) (add_pos p (move_of d')) \<le> (L(y := t + 1)) p + 1"
    if "p \<in> insert y V" "okmove w adv p d'" "add_pos p (move_of d') \<in> insert y V" for p d'
  proof -
    have top: "\<And>q. q \<in> insert y V \<Longrightarrow> (L(y := t + 1)) q \<le> t + 1"
      using D(5) by auto
    show ?thesis
    proof (cases "p = y")
      case True
      with top [OF that(3)] show ?thesis by simp
    next
      case False
      with that have pV: "p \<in> V" by simp
      show ?thesis
      proof (cases "add_pos p (move_of d') = y")
        case True
        with D(8) [OF pV that(2)] y(2)
        have "p \<in> fst ` set Q \<or> (p, d') \<in> insert (cur, d) pend" by simp
        then have "t \<le> L p"
        proof
          assume "p \<in> fst ` set Q"
          then obtain u where "(p, u) \<in> set Q" by auto
          from D(6) [OF this] show ?thesis by simp
        next
          assume "(p, d') \<in> insert (cur, d) pend"
          from D(10) [OF this] show ?thesis by simp
        qed
        with True False show ?thesis by simp
      next
        case n: False
        with that(3) have "add_pos p (move_of d') \<in> V" by simp
        from D(9) [OF pV that(2) this] Lold [OF pV] Lold [OF this] show ?thesis by simp
      qed
    qed
  qed
  show "p \<in> insert y V \<and> (L(y := t + 1)) p = t" if "(p, d') \<in> pend" for p d'
  proof -
    from that have "(p, d') \<in> insert (cur, d) pend" by simp
    from D(10) [OF this] Lold show ?thesis by simp
  qed
qed

lemma expand_search:
  assumes bw: "border_walls w"
  shows "search_inv w adv e s L t ({cur} \<times> set ds) Q V \<Longrightarrow> cur \<in> V \<Longrightarrow> L cur = t
    \<Longrightarrow> t < max_step w \<Longrightarrow> \<forall>d \<in> set ds. 0 \<le> d \<and> d \<le> 3 \<Longrightarrow> finite V \<Longrightarrow>
    \<exists>reached V' Q'. expand w adv e cur t ds V Q = Inr (reached, V', Q') \<and>
       (if reached then reachable_in w adv (nat (max_step w)) s e
        else (\<exists>L'. search_inv w adv e s L' t {} Q' V') \<and> finite V' \<and> V \<subseteq> V'
             \<and> length Q' + card V = length Q + card V')"
proof (induction ds arbitrary: L Q V)
  case Nil
  then show ?case by auto
next
  case (Cons d ds)
  have pend: "{cur} \<times> set (d # ds) = insert (cur, d) ({cur} \<times> set ds)"
    by auto
  note inv = Cons.prems(1) [unfolded pend]
  note D = search_invD [OF inv]
  from Cons.prems(5) have d: "0 \<le> d" "d \<le> 3" and ds: "\<forall>d \<in> set ds. 0 \<le> d \<and> d \<le> 3"
    by simp_all
  from D(5) [OF Cons.prems(2)] have cb: "check_boundary w cur"
    and cr: "reachable_in w adv (nat t) s cur"
    using Cons.prems(3) by simp_all
  from cb d have bg: "board_get w (fst cur) (snd cur) d = Inr (chess_board w (fst cur) (snd cur) d)"
    by (simp add: board_get_in_range check_boundary_def)
  define y where "y = add_pos cur (move_of d)"
  have ok: "okmove w adv cur d \<longleftrightarrow> \<not> chess_board w (fst cur) (snd cur) d \<and> y \<noteq> adv"
    using d by (simp add: okmove_def y_def)
  consider (skip) "chess_board w (fst cur) (snd cur) d \<or> y = adv \<or> y \<in> V"
    | (found) "\<not> chess_board w (fst cur) (snd cur) d" "y \<noteq> adv" "y \<notin> V" "y = e"
    | (new) "\<not> chess_board w (fst cur) (snd cur) d" "y \<noteq> adv" "y \<notin> V" "y \<noteq> e"
    by blast
  then show ?case
  proof cases
    case skip
    then have eq: "expand w adv e cur t (d # ds) V Q = expand w adv e cur t ds V Q"
      by (auto simp: bg y_def Let_def)
    from skip ok have "\<not> okmove w adv cur d \<or> add_pos cur (move_of d) \<in> V"
      unfolding y_def by blast
    from search_inv_skip [OF inv this]
    have "search_inv w adv e s L t ({cur} \<times> set ds) Q V" .
    from Cons.IH [OF this Cons.prems(2,3,4) ds Cons.prems(6)] show ?thesis
      unfolding eq .
  next
    case found
    then have eq: "expand w adv e cur t (d # ds) V Q = Inr (True, V, Q)"
      by (simp add: bg y_def Let_def)
    from found ok have "okmove w adv cur d" by simp
    from reachable_in_snoc [OF cr cb this] found(4)
    have "reachable_in w adv (Suc (nat t)) s e" by (simp add: y_def)
    moreover from D(4) Cons.prems(4) have "Suc (nat t) \<le> nat (max_step w)" by simp
    ultimately have "reachable_in w adv (nat (max_step w)) s e"
      by (rule reachable_in_mono)
    then show ?thesis unfolding eq by auto
  next
    case new
    then have eq: "expand w adv e cur t (d # ds) V Q =
        expand w adv e cur t ds (insert y V) (Q @ [(y, t + 1)])"
      by (simp add: bg y_def Let_def)
    from new ok have okm: "okmove w adv cur d" by simp
    from search_inv_add [OF inv bw Cons.prems(2,3,4) okm y_def new(3,4)]
    have inv': "search_inv w adv e s (L(y := t + 1)) t ({cur} \<times> set ds)
        (Q @ [(y, t + 1)]) (insert y V)" .
    from new(3) Cons.prems(2) have "cur \<noteq> y" by auto
    with Cons.prems(3) have lc: "(L(y := t + 1)) cur = t" by simp
    have cv: "cur \<in> insert y V" using Cons.prems(2) by simp
    have fin: "finite (insert y V)" using Cons.prems(6) by simp
    from Cons.IH [OF inv' cv lc Cons.prems(4) ds fin]
    obtain reached V' Q' where
      r: "expand w adv e cur t ds (insert y V) (Q @ [(y, t + 1)]) = Inr (reached, V', Q')"
        "if reached then reachable_in w adv (nat (max_step w)) s e
         else (\<exists>L'. search_inv w adv e s L' t {} Q' V') \<and> finite V' \<and> insert y V \<subseteq> V'
              \<and> length Q' + card (insert y V) = length (Q @ [(y, t + 1)]) + card V'"
      by blast
    have "card (insert y V) = Suc (card V)"
      using new(3) Cons.prems(6) by simp
    with r(2) have "if reached then reachable_in w adv (nat (max_step w)) s e
         else (\<exists>L'. search_inv w adv e s L' t {} Q' V') \<and> finite V' \<and> V \<subseteq> V'
              \<and> length Q' + card V = length Q + card V'"
      by (cases reached) auto
    with r(1) show ?thesis unfolding eq by simp
  qed
qed

lemma bfs_loop_correct:
  assumes bw: "border_walls w"
  shows "search_inv w adv e s L t {} Q V \<Longrightarrow> finite V \<Longrightarrow>
    bfs_loop w adv e Q V = Some (Inr (reachable_in w adv (nat (max_step w)) s e))"
proof (induction "card (set (cells (board_size w)) - V) + length Q" arbitrary: L t Q V
    rule: less_induct)
  case less
  note inv = less.prems(1)
  note D = search_invD [OF inv]
  have s0: "L s + int (nat (max_step w)) \<le> max_step w"
    using D(2) D(5) [OF D(1)] by simp
  show ?case
  proof (cases Q)
    case Nil
    then have "\<forall>(p, u) \<in> set Q. max_step w \<le> u" by simp
    from search_blocked [OF inv this D(1) s0] Nil show ?thesis
      by (simp add: bfs_loop.simps)
  next
    case (Cons x rest)
    obtain cur t' where x: "x = (cur, t')" by (cases x)
    note Q = Cons [unfolded x]
    from D(6) [of cur t'] have cur: "cur \<in> V" "L cur = t'" "t \<le> t'"
      by (simp_all add: Q)
    show ?thesis
    proof (cases "t' = max_step w")
      case True
      have "\<forall>(p, u) \<in> set Q. max_step w \<le> u"
        using D(7) by (auto simp: Q True)
      from search_blocked [OF inv this D(1) s0] True Q show ?thesis
        by (simp add: bfs_loop.simps)
    next
      case False
      with D(5) [OF cur(1)] cur(2) have lt: "t' < max_step w" by simp
      have inv': "search_inv w adv e s L t' ({cur} \<times> set [0, 1, 2, 3]) rest V"
      proof (rule search_invI)
        show "s \<in> V" "L s = 0" "e \<notin> V" by (rule D)+
        show "0 \<le> t'" using D(4) cur(3) by simp
        show "check_boundary w p \<and> 0 \<le> L p \<and> L p \<le> t' + 1 \<and> L p \<le> max_step w
              \<and> reachable_in w adv (nat (L p)) s p" if "p \<in> V" for p
          using D(5) [OF that] cur(3) by simp
        show "p \<in> V \<and> L p = u \<and> t' \<le> u" if "(p, u) \<in> set rest" for p u
        proof -
          from that have "(p, u) \<in> set Q" by (simp add: Q)
          from D(6) [OF this] have "p \<in> V" "L p = u" by simp_all
          moreover from D(7) that have "t' \<le> u" by (auto simp: Q)
          ultimately show ?thesis by simp
        qed
        show "sorted (map snd rest)" using D(7) by (simp add: Q)
        show "add_pos p (move_of d) \<in> V \<or> p \<in> fst ` set rest
              \<or> (p, d) \<in> {cur} \<times> set [0, 1, 2, 3::int]"
          if "p \<in> V" "okmove w adv p d" for p d
        proof -
          from that(2) have "d \<in> set [0, 1, 2, 3]"
            unfolding dir_set by (simp add: okmove_def)
          moreover have "fst ` set Q = insert cur (fst ` set rest)"
            by (simp add: Q)
          ultimately show ?thesis
            using D(8) [OF that] by blast
        qed
        show "L (add_pos p (move_of d)) \<le> L p + 1"
          if "p \<in> V" "okmove w adv p d" "add_pos p (move_of d) \<in> V" for p d
          using that by (rule D(9))
        show "p \<in> V \<and> L p = t'" if "(p, d) \<in> {cur} \<times> set [0, 1, 2, 3::int]" for p d
          using that cur by auto
      qed
      have dirs: "\<forall>d \<in> set [0, 1, 2, 3]. 0 \<le> d \<and> d \<le> (3::int)" by simp
      from expand_search [OF bw inv' cur(1,2) lt dirs less.prems(2)]
      obtain reached V' Q' where
        r: "expand w adv e cur t' [0, 1, 2, 3] V rest = Inr (reached, V', Q')"
          "if reached then reachable_in w adv (nat (max_step w)) s e
           else (\<exists>L'. search_inv w adv e s L' t' {} Q' V') \<and> finite V' \<and> V \<subseteq> V'
                \<and> length Q' + card V = length rest + card V'"
        by blast
      have unf: "bfs_loop w adv e Q V =
          (if reached then Some (Inr True) else bfs_loop w adv e Q' V')"
        by (subst bfs_loop.simps) (simp add: Q False r(1) del: expand.simps)
      show ?thesis
      proof (cases reached)
        case True
        with r(2) unf show ?thesis by simp
      next
        case nr: False
        with r(2) obtain L' where inv'': "search_inv w adv e s L' t' {} Q' V'"
          and fin: "finite V'" and sub: "V \<subseteq> V'"
          and cnt: "length Q' + card V = length rest + card V'" by auto
        let ?C = "set (cells (board_size w))"
        have "V' \<subseteq> ?C"
          using search_invD(5) [OF inv''] by (auto simp: cells_boundary)
        then have c': "card (?C - V') = card ?C - card V'" "card V' \<le> card ?C"
          by (simp_all add: card_Diff_subset fin card_mono)
        from sub \<open>V' \<subseteq> ?C\<close> have "V \<subseteq> ?C" by simp
        then have c: "card (?C - V) = card ?C - card V"
          by (simp add: card_Diff_subset less.prems(2))
        have "card V \<le> card V'" using sub fin by (rule card_mono [OF _ _, rotated]) 
        with c c' cnt have "card (?C - V') + length Q' < card (?C - V) + length Q"
          by (simp add: Q)
        from less.hyps [OF this inv'' fin] unf nr show ?thesis by simp
      qed
    qed
  qed
qed


section \<open>check_valid_step: reachability\<close>

lemma move_of_cases:
  assumes "0 \<le> d" and "d \<le> 3"
  shows "move_of d = (-1, 0) \<or> move_of d = (0, 1) \<or> move_of d = (1, 0) \<or> move_of d = (0, -1)"
  by (simp add: move_of_def)

lemma grid_distance_step:
  assumes "0 \<le> d" and "d \<le> 3"
  shows "grid_distance a b \<le> grid_distance (add_pos a (move_of d)) b + 1"
  using move_of_cases [OF assms]
  by (auto simp: grid_distance_def add_pos_def)

lemma reachable_in_grid_distance:
  "reachable_in w adv n a b \<Longrightarrow> grid_distance a b \<le> int n"
proof (induction n arbitrary: a)
  case 0
  then show ?case by (simp add: grid_distance_def)
next
  case (Suc n)
  from Suc.prems consider "a = b"
    | d where "0 \<le> d" "d \<le> 3" "reachable_in w adv n (add_pos a (move_of d)) b"
    unfolding reachable_in_Suc by blast
  then show ?case
  proof cases
    case 1
    then show ?thesis by (simp add: grid_distance_def)
  next
    case 2
    from Suc.IH [OF 2(3)] grid_distance_step [OF 2(1,2), of a b] show ?thesis by simp
  qed
qed

lemma wall_freeD:
  assumes "wall_free w" and "check_boundary w p" and "0 \<le> d" and "d \<le> 3"
  shows "chess_board w (fst p) (snd p) d = (\<not> check_boundary w (add_pos p (move_of d)))"
proof -
  from assms(3,4) have "d \<in> set [0, 1, 2, 3]"
    unfolding dir_set by simp
  with assms(1,2) show ?thesis
    unfolding wall_free_def list_all_iff cells_boundary [symmetric] by blast
qed

lemma wall_free_border:
  assumes "wall_free w"
  shows "border_walls w"
proof -
  have "chess_board w 0 i 0 \<and> chess_board w i 0 3 \<and> chess_board w (board_size w - 1) i 2
        \<and> chess_board w i (board_size w - 1) 1" if "0 \<le> i" "i < board_size w" for i
    using that wall_freeD [OF assms, of "(0, i)" 0] wall_freeD [OF assms, of "(i, 0)" 3]
      wall_freeD [OF assms, of "(board_size w - 1, i)" 2]
      wall_freeD [OF assms, of "(i, board_size w - 1)" 1]
    by (simp add: check_boundary_def add_pos_def move_of_def)
  then show ?thesis
    unfolding border_walls_def list_all_iff by auto
qed

text \<open>On a board without interior walls a step towards the goal inside the rectangle is
  always possible.\<close>

lemma grid_distance_reachable:
  assumes wf: "wall_free w" and b: "check_boundary w b"
  shows "check_boundary w a \<Longrightarrow> \<not> in_rectangle a b adv \<Longrightarrow> grid_distance a b \<le> int n
    \<Longrightarrow> reachable_in w adv n a b"
proof (induction n arbitrary: a)
  case 0
  then have "a = b"
    by (cases a, cases b) (auto simp: grid_distance_def)
  then show ?case by simp
next
  case (Suc n)
  show ?case
  proof (cases "a = b")
    case True
    then show ?thesis by (simp add: reachable_in_refl)
  next
    case False
    obtain d where d: "0 \<le> d" "d \<le> 3"
      and inr: "in_rectangle a b (add_pos a (move_of d))"
      and dist: "grid_distance (add_pos a (move_of d)) b + 1 = grid_distance a b"
    proof -
      consider "fst a < fst b" | "fst b < fst a" | "fst a = fst b" "snd a < snd b"
        | "fst a = fst b" "snd b < snd a"
        using False by (cases a, cases b) force
      then show ?thesis
      proof cases
        case 1
        then show ?thesis
          by (intro that [of 2]) (auto simp: in_rectangle_def grid_distance_def add_pos_def move_of_def)
      next
        case 2
        then show ?thesis
          by (intro that [of 0]) (auto simp: in_rectangle_def grid_distance_def add_pos_def move_of_def)
      next
        case 3
        then show ?thesis
          by (intro that [of 1]) (auto simp: in_rectangle_def grid_distance_def add_pos_def move_of_def)
      next
        case 4
        then show ?thesis
          by (intro that [of 3]) (auto simp: in_rectangle_def grid_distance_def add_pos_def move_of_def)
      qed
    qed
    let ?a' = "add_pos a (move_of d)"
    from inr Suc.prems(1) b have cb: "check_boundary w ?a'"
      by (auto simp: in_rectangle_def check_boundary_def)
    with wall_freeD [OF wf Suc.prems(1) d] have nw: "\<not> chess_board w (fst a) (snd a) d"
      by simp
    from inr Suc.prems(2) have na: "?a' \<noteq> adv" by auto
    have "\<not> in_rectangle ?a' b adv"
      using inr Suc.prems(2) by (auto simp: in_rectangle_def)
    moreover from dist Suc.prems(3) have "grid_distance ?a' b \<le> int n" by simp
    ultimately have "reachable_in w adv n ?a' b"
      using Suc.IH [OF cb] by blast
    with d nw na Suc.prems(1) show ?thesis
      unfolding reachable_in_Suc by blast
  qed
qed

lemma check_valid_step_search:
  assumes "border_walls w" and "0 \<le> max_step w"
    and "check_boundary w start_pos" and "check_boundary w end_pos"
    and "0 \<le> barrier_dir" and "barrier_dir \<le> 3"
    and "end_pos \<noteq> start_pos"
    and "\<not> chess_board w (fst end_pos) (snd end_pos) barrier_dir"
  shows "check_valid_step w start_pos end_pos barrier_dir =
     Some (Inr (reachable_in w (if turn w \<noteq> 0 then p0_pos w else p1_pos w)
        (nat (max_step w)) start_pos end_pos))"
proof -
  let ?adv = "if turn w \<noteq> 0 then p0_pos w else p1_pos w"
  have "search_inv w ?adv end_pos start_pos (\<lambda>p. 0) 0 {} [(start_pos, 0)] {start_pos}"
    by (rule search_inv_init [OF assms(3,2,7)])
  from bfs_loop_correct [OF assms(1) this]
  have "bfs_loop w ?adv end_pos [(start_pos, 0)] {start_pos} =
      Some (Inr (reachable_in w ?adv (nat (max_step w)) start_pos end_pos))"
    by simp
  moreover have "board_get w (fst end_pos) (snd end_pos) barrier_dir = Inr False"
    using assms(4,5,6,8) by (simp add: board_get_in_range check_boundary_def)
  ultimately show ?thesis
    using assms(7) unfolding check_valid_step_def by (simp add: Let_def)
qed

text \<open>
  C4. On a board with its border walls, with a move budget that is not negative, for a
  start and a destination on the board that differ, and a direction in which the
  destination has no wall: \<open>check_valid_step\<close> returns, and it returns True if and only if
  there is a path of at most \<open>max_step\<close> steps from the start to the destination that
  crosses no wall and never enters the cell of the adversary (the position of the player
  whose turn it is not). In particular, on a board without interior walls and with the
  adversary outside the rectangle spanned by start and destination, it returns True
  exactly when their grid distance is at most \<open>max_step\<close>.
\<close>

theorem check_valid_step_reachability:
  assumes "border_walls w" and "0 \<le> max_step w"
    and "check_boundary w start_pos" and "check_boundary w end_pos"
    and "0 \<le> barrier_dir" and "barrier_dir \<le> 3"
    and "end_pos \<noteq> start_pos"
    and "\<not> chess_board w (fst end_pos) (snd end_pos) barrier_dir"
  shows "check_valid_step w start_pos end_pos barrier_dir =
           Some (Inr (reachable_in w (if turn w \<noteq> 0 then p0_pos w else p1_pos w)
              (nat (max_step w)) start_pos end_pos))
       \<and> (wall_free w
            \<and> \<not> in_rectangle start_pos end_pos (if turn w \<noteq> 0 then p0_pos w else p1_pos w)
          \<longrightarrow> check_valid_step w start_pos end_pos barrier_dir =
                Some (Inr (grid_distance start_pos end_pos \<le> max_step w)))"
proof (intro conjI impI)
  let ?adv = "if turn w \<noteq> 0 then p0_pos w else p1_pos w"
  show s: "check_valid_step w start_pos end_pos barrier_dir =
      Some (Inr (reachable_in w ?adv (nat (max_step w)) start_pos end_pos))"
    by (rule check_valid_step_search [OF assms])
  assume wf: "wall_free w \<and> \<not> in_rectangle start_pos end_pos ?adv"
  have "reachable_in w ?adv (nat (max_step w)) start_pos end_pos
        \<longleftrightarrow> grid_distance start_pos end_pos \<le> max_step w"
  proof
    assume "reachable_in w ?adv (nat (max_step w)) start_pos end_pos"
    from reachable_in_grid_distance [OF this] assms(2)
    show "grid_distance start_pos end_pos \<le> max_step w" by simp
  next
    assume "grid_distance start_pos end_pos \<le> max_step w"
    with assms(2) have "grid_distance start_pos end_pos \<le> int (nat (max_step w))" by simp
    with wf assms(3,4) show "reachable_in w ?adv (nat (max_step w)) start_pos end_pos"
      by (intro grid_distance_reachable) simp_all
  qed
  with s show "check_valid_step w start_pos end_pos barrier_dir =
      Some (Inr (grid_distance start_pos end_pos \<le> max_step w))"
    by simp
qed

lemma bordered_world_3_wall_free: "wall_free (bordered_world 3 a b)"
  by (simp add: wall_free_def bordered_world_def cells_def
      check_boundary_def add_pos_def move_of_def upto.simps)

theorem check_valid_step_reachability_witness:
  "border_walls (bordered_world 3 (0, 0) (2, 2)) \<and> 0 \<le> max_step (bordered_world 3 (0, 0) (2, 2))
   \<and> check_boundary (bordered_world 3 (0, 0) (2, 2)) (0, 0)
   \<and> check_boundary (bordered_world 3 (0, 0) (2, 2)) (0, 2)
   \<and> (0, 2) \<noteq> ((0, 0) :: pos)
   \<and> \<not> chess_board (bordered_world 3 (0, 0) (2, 2)) (fst (0, 2)) (snd (0, 2)) 2
   \<and> wall_free (bordered_world 3 (0, 0) (2, 2))
   \<and> \<not> in_rectangle (0, 0) (0, 2) (2, 2)
   \<and> check_valid_step (bordered_world 3 (0, 0) (2, 2)) (0, 0) (0, 2) 2 = Some (Inr True)
   \<and> reachable_in (bordered_world 3 (0, 0) (2, 2)) (2, 2) 2 (0, 0) (0, 2)"
proof -
  let ?w = "bordered_world 3 (0, 0) (2, 2)"
  have m: "0 \<le> max_step ?w" and ms: "max_step ?w = 2" and adv: "turn ?w = 0" "p1_pos ?w = (2, 2)"
    by (simp_all add: bordered_world_def max_step_of_def)
  have s: "check_boundary ?w (0, 0)" and e: "check_boundary ?w (0, 2)"
    by (simp_all add: check_boundary_def bordered_world_def)
  have ne: "(0, 2) \<noteq> ((0, 0) :: pos)" by simp
  have nw: "\<not> chess_board ?w (fst (0, 2)) (snd (0, 2)) 2"
    by (simp add: bordered_world_def)
  have d: "(0::int) \<le> 2" "(2::int) \<le> 3" by simp_all
  have r: "\<not> in_rectangle (0, 0) (0, 2) (2, 2)"
    by (simp add: in_rectangle_def)
  have g: "grid_distance (0, 0) (0, 2) = 2"
    by (simp add: grid_distance_def)
  note T = check_valid_step_reachability [OF bordered_world_3_ok(1) m s e d ne nw]
  from T [THEN conjunct1]
  have A: "check_valid_step ?w (0, 0) (0, 2) 2 =
      Some (Inr (reachable_in ?w (2, 2) 2 (0, 0) (0, 2)))"
    by (simp add: adv ms)
  from T [THEN conjunct2]
  have B: "wall_free ?w \<and> \<not> in_rectangle (0, 0) (0, 2) (2, 2)
      \<longrightarrow> check_valid_step ?w (0, 0) (0, 2) 2 = Some (Inr True)"
    by (simp add: adv ms g)
  from B bordered_world_3_wall_free [of "(0, 0)" "(2, 2)"] r
  have C: "check_valid_step ?w (0, 0) (0, 2) 2 = Some (Inr True)"
    by blast
  with A have "reachable_in ?w (2, 2) 2 (0, 0) (0, 2)"
    by simp
  with C bordered_world_3_ok(1) m s e ne nw bordered_world_3_wall_free r show ?thesis
    by blast
qed


section \<open>check_endgame: the union-find structure\<close>

lemma uf_invD:
  assumes "uf_inv C f rep h" and "x \<in> C"
  shows "rep x \<in> C" and "rep (rep x) = rep x" and "rep x \<noteq> x \<Longrightarrow> h (rep x) < h x"
    and "\<exists>p. p \<in> C \<and> f x = Some p \<and> rep p = rep x \<and> (p = x \<longrightarrow> rep x = x)
               \<and> (p \<noteq> x \<longrightarrow> h p < h x)"
  using assms unfolding uf_inv_def by blast+

lemma uf_inv_update:
  assumes inv: "uf_inv C f rep h" and x: "x \<in> C"
  shows "uf_inv C (f(x \<mapsto> rep x)) rep h"
  unfolding uf_inv_def
proof (intro allI impI)
  fix y assume y: "y \<in> C"
  note D = uf_invD [OF inv y]
  have "\<exists>p. p \<in> C \<and> (f(x \<mapsto> rep x)) y = Some p \<and> rep p = rep y \<and> (p = y \<longrightarrow> rep y = y)
               \<and> (p \<noteq> y \<longrightarrow> h p < h y)"
  proof (cases "y = x")
    case True
    with D(1,2,3) show ?thesis
      by (intro exI [of _ "rep x"]) auto
  next
    case False
    with D(4) show ?thesis by simp
  qed
  with D(1,2,3) show "rep y \<in> C \<and> rep (rep y) = rep y \<and> (rep y \<noteq> y \<longrightarrow> h (rep y) < h y)
      \<and> (\<exists>p. p \<in> C \<and> (f(x \<mapsto> rep x)) y = Some p \<and> rep p = rep y \<and> (p = y \<longrightarrow> rep y = y)
               \<and> (p \<noteq> y \<longrightarrow> h p < h y))"
    by blast
qed

lemma find_correct:
  assumes inv: "uf_inv C f rep h"
  shows "x \<in> C \<Longrightarrow>
    \<exists>f'. find f x = Some (Inr (f', rep x)) \<and> uf_inv C f' rep h \<and> f' x = Some (rep x)
        \<and> (\<forall>y. f' y = f y \<or> f' y = Some (rep y))"
proof (induction "h x" arbitrary: x rule: less_induct)
  case less
  from uf_invD(4) [OF inv less.prems] obtain p where
    p: "p \<in> C" "f x = Some p" "rep p = rep x" "p = x \<longrightarrow> rep x = x" "p \<noteq> x \<longrightarrow> h p < h x"
    by blast
  show ?case
  proof (cases "p = x")
    case True
    with p have "find f x = Some (Inr (f, rep x))"
      by (subst find.simps) simp
    with inv p True show ?thesis by auto
  next
    case False
    with p(5) have "h p < h x" by simp
    from less.hyps [OF this p(1)] obtain f1 where
      f1: "find f p = Some (Inr (f1, rep p))" "uf_inv C f1 rep h" "f1 p = Some (rep p)"
        "\<forall>y. f1 y = f y \<or> f1 y = Some (rep y)" by blast
    from False p(2) f1(1) have "find f x = Some (Inr (f1(x \<mapsto> rep p), rep p))"
      by (subst find.simps) simp
    then have "find f x = Some (Inr (f1(x \<mapsto> rep x), rep x))"
      by (simp add: p(3))
    moreover have "uf_inv C (f1(x \<mapsto> rep x)) rep h"
      by (rule uf_inv_update [OF f1(2) less.prems])
    moreover have "\<forall>y. (f1(x \<mapsto> rep x)) y = f y \<or> (f1(x \<mapsto> rep x)) y = Some (rep y)"
      using f1(4) by simp
    ultimately show ?thesis by auto
  qed
qed

lemma uf_root:
  assumes inv: "uf_inv C f rep h" and x: "x \<in> C" and r: "rep x = x"
  shows "f x = Some x"
proof -
  from uf_invD(4) [OF inv x] obtain p where
    p: "p \<in> C" "f x = Some p" "rep p = rep x" "p \<noteq> x \<longrightarrow> h p < h x"
    by blast
  have "p = x"
  proof (rule ccontr)
    assume ne: "p \<noteq> x"
    with p(4) have "h p < h x" by simp
    moreover from p(3) r ne have "rep p \<noteq> p" by simp
    from uf_invD(3) [OF inv p(1) this] p(3) r have "h x < h p" by simp
    ultimately show False by simp
  qed
  with p(2) show ?thesis by simp
qed

lemma uf_union:
  assumes inv: "uf_inv C f rep h" and a: "a \<in> C" "rep a = a" and b: "b \<in> C" "rep b = b"
    and ne: "a \<noteq> b"
  shows "uf_inv C (union f a b) (\<lambda>x. if rep x = a then b else rep x)
           (\<lambda>x. if rep x = a then h x + h b + 1 else h x)"
  unfolding uf_inv_def union_def
proof (intro allI impI)
  fix x assume x: "x \<in> C"
  let ?rep = "\<lambda>x. if rep x = a then b else rep x"
  let ?h = "\<lambda>x. if rep x = a then h x + h b + 1 else h x"
  note D = uf_invD [OF inv x]
  have 1: "?rep x \<in> C" using D(1) b(1) by simp
  have 2: "?rep (?rep x) = ?rep x" using D(2) b(2) ne by auto
  have 3: "?rep x \<noteq> x \<longrightarrow> ?h (?rep x) < ?h x"
    using D(2,3) b(2) ne by auto
  have 4: "\<exists>p. p \<in> C \<and> (f(a \<mapsto> b)) x = Some p \<and> ?rep p = ?rep x \<and> (p = x \<longrightarrow> ?rep x = x)
               \<and> (p \<noteq> x \<longrightarrow> ?h p < ?h x)"
  proof (cases "x = a")
    case True
    with a b ne show ?thesis
      by (intro exI [of _ b]) auto
  next
    case False
    from D(4) obtain p where
      p: "p \<in> C" "f x = Some p" "rep p = rep x" "p = x \<longrightarrow> rep x = x" "p \<noteq> x \<longrightarrow> h p < h x"
      by blast
    with False show ?thesis
      by (intro exI [of _ p]) auto
  qed
  from 1 2 3 4
  show "?rep x \<in> C \<and> ?rep (?rep x) = ?rep x \<and> (?rep x \<noteq> x \<longrightarrow> ?h (?rep x) < ?h x)
      \<and> (\<exists>p. p \<in> C \<and> (f(a \<mapsto> b)) x = Some p \<and> ?rep p = ?rep x \<and> (p = x \<longrightarrow> ?rep x = x)
               \<and> (p \<noteq> x \<longrightarrow> ?h p < ?h x))"
    by blast
qed

lemma same_component_refl: "same_component w a a"
  by (simp add: same_component_def)

lemma same_component_sym: "same_component w a b \<Longrightarrow> same_component w b a"
  unfolding same_component_def
  using sym_rtrancl [OF sym_Un_converse [of "open_edges w"]] by (rule symD)

lemma same_component_trans:
  "same_component w a b \<Longrightarrow> same_component w b c \<Longrightarrow> same_component w a c"
  unfolding same_component_def by (rule rtrancl_trans)

lemma same_component_edge:
  assumes "check_boundary w a" and "0 \<le> d" and "d \<le> 3"
    and "\<not> chess_board w (fst a) (snd a) d" and "check_boundary w (add_pos a (move_of d))"
  shows "same_component w a (add_pos a (move_of d))"
proof -
  from assms have "(a, add_pos a (move_of d)) \<in> open_edges w"
    unfolding open_edges_def by blast
  then show ?thesis
    unfolding same_component_def by blast
qed

lemma union_loop_correct:
  assumes bw: "border_walls w"
  shows "uf_inv (set (cells (board_size w))) f rep h
    \<Longrightarrow> \<forall>x \<in> set (cells (board_size w)). same_component w x (rep x)
    \<Longrightarrow> \<forall>(p, dir) \<in> set es. check_boundary w p \<and> (dir = 0 \<or> dir = 1)
    \<Longrightarrow> \<exists>f' rep' h'. union_loop w es f = Some (Inr f')
          \<and> uf_inv (set (cells (board_size w))) f' rep' h'
          \<and> (\<forall>x \<in> set (cells (board_size w)). same_component w x (rep' x))
          \<and> (\<forall>x y. rep x = rep y \<longrightarrow> rep' x = rep' y)
          \<and> (\<forall>(p, dir) \<in> set es. \<not> chess_board w (fst p) (snd p) (dir + 1)
                \<longrightarrow> rep' p = rep' (add_pos p (move_of (dir + 1))))"
proof (induction es arbitrary: f rep h)
  case Nil
  then show ?case by auto
next
  case (Cons e es)
  let ?C = "set (cells (board_size w))"
  obtain p dir where e: "e = (p, dir)" by (cases e)
  from Cons.prems(3) have pb: "check_boundary w p" and dir: "dir = 0 \<or> dir = 1"
    and rest: "\<forall>(p, dir) \<in> set es. check_boundary w p \<and> (dir = 0 \<or> dir = 1)"
    by (simp_all add: e)
  from dir have d: "0 \<le> dir + 1" "dir + 1 \<le> 3" by auto
  from pb d have bg: "board_get w (fst p) (snd p) (dir + 1)
      = Inr (chess_board w (fst p) (snd p) (dir + 1))"
    by (simp add: board_get_in_range check_boundary_def)
  define q where "q = add_pos p (move_of (dir + 1))"
  show ?case
  proof (cases "chess_board w (fst p) (snd p) (dir + 1)")
    case True
    then have eq: "union_loop w (e # es) f = union_loop w es f"
      by (simp add: e bg)
    from Cons.IH [OF Cons.prems(1,2) rest] obtain f' rep' h' where
      r: "union_loop w es f = Some (Inr f')" "uf_inv ?C f' rep' h'"
        "\<forall>x \<in> ?C. same_component w x (rep' x)"
        "\<forall>x y. rep x = rep y \<longrightarrow> rep' x = rep' y"
        "\<forall>(p, dir) \<in> set es. \<not> chess_board w (fst p) (snd p) (dir + 1)
              \<longrightarrow> rep' p = rep' (add_pos p (move_of (dir + 1)))" by blast
    have "\<forall>(p, dir) \<in> set (e # es). \<not> chess_board w (fst p) (snd p) (dir + 1)
              \<longrightarrow> rep' p = rep' (add_pos p (move_of (dir + 1)))"
      using r(5) True by (simp add: e)
    with r(1,2,3,4) show ?thesis
      unfolding eq by blast
  next
    case False
    from open_step_on_board [OF bw pb d False] have qb: "check_boundary w q"
      by (simp add: q_def)
    from pb qb have pC: "p \<in> ?C" and qC: "q \<in> ?C"
      by (simp_all add: cells_boundary)
    from find_correct [OF Cons.prems(1) pC] obtain f1 where
      f1: "find f p = Some (Inr (f1, rep p))" "uf_inv ?C f1 rep h" by blast
    from find_correct [OF f1(2) qC] obtain f2 where
      f2: "find f1 q = Some (Inr (f2, rep q))" "uf_inv ?C f2 rep h" by blast
    have eq: "union_loop w (e # es) f =
        union_loop w es (if rep p \<noteq> rep q then union f2 (rep p) (rep q) else f2)"
      using False by (simp add: e bg f1(1) f2(1) q_def [symmetric])
    have pq: "same_component w p q"
      unfolding q_def by (rule same_component_edge [OF pb d False qb [unfolded q_def]])
    show ?thesis
    proof (cases "rep p = rep q")
      case True
      from Cons.IH [OF f2(2) Cons.prems(2) rest] obtain f' rep' h' where
        r: "union_loop w es f2 = Some (Inr f')" "uf_inv ?C f' rep' h'"
          "\<forall>x \<in> ?C. same_component w x (rep' x)"
          "\<forall>x y. rep x = rep y \<longrightarrow> rep' x = rep' y"
          "\<forall>(p, dir) \<in> set es. \<not> chess_board w (fst p) (snd p) (dir + 1)
                \<longrightarrow> rep' p = rep' (add_pos p (move_of (dir + 1)))" by blast
      from r(4) True have "rep' p = rep' q" by blast
      then have "\<forall>(p, dir) \<in> set (e # es). \<not> chess_board w (fst p) (snd p) (dir + 1)
              \<longrightarrow> rep' p = rep' (add_pos p (move_of (dir + 1)))"
        using r(5) by (simp add: e q_def)
      moreover have "union_loop w (e # es) f = Some (Inr f')"
        unfolding eq using r(1) True by simp
      ultimately show ?thesis
        using r(2,3,4) by blast
    next
      case ne: False
      let ?rep = "\<lambda>x. if rep x = rep p then rep q else rep x"
      let ?h = "\<lambda>x. if rep x = rep p then h x + h (rep q) + 1 else h x"
      note Dp = uf_invD [OF f2(2) pC] and Dq = uf_invD [OF f2(2) qC]
      have inv': "uf_inv ?C (union f2 (rep p) (rep q)) ?rep ?h"
        by (rule uf_union [OF f2(2) Dp(1,2) Dq(1,2) ne])
      have sound: "\<forall>x \<in> ?C. same_component w x (?rep x)"
      proof
        fix x assume x: "x \<in> ?C"
        show "same_component w x (?rep x)"
        proof (cases "rep x = rep p")
          case True
          from Cons.prems(2) x True have "same_component w x (rep p)" by auto
          moreover from Cons.prems(2) pC have "same_component w (rep p) p"
            by (auto intro: same_component_sym)
          moreover from Cons.prems(2) qC have "same_component w q (rep q)" by auto
          ultimately have "same_component w x (rep q)"
            using pq by (blast intro: same_component_trans)
          with True show ?thesis by simp
        next
          case False
          with Cons.prems(2) x show ?thesis by auto
        qed
      qed
      from Cons.IH [OF inv' sound rest] obtain f' rep' h' where
        r: "union_loop w es (union f2 (rep p) (rep q)) = Some (Inr f')" "uf_inv ?C f' rep' h'"
          "\<forall>x \<in> ?C. same_component w x (rep' x)"
          "\<forall>x y. ?rep x = ?rep y \<longrightarrow> rep' x = rep' y"
          "\<forall>(p, dir) \<in> set es. \<not> chess_board w (fst p) (snd p) (dir + 1)
                \<longrightarrow> rep' p = rep' (add_pos p (move_of (dir + 1)))" by blast
      have "?rep p = ?rep q" using ne by simp
      with r(4) have pq': "rep' p = rep' q" by blast
      have mono: "\<forall>x y. rep x = rep y \<longrightarrow> rep' x = rep' y"
      proof (intro allI impI)
        fix x y assume "rep x = rep y"
        then have "?rep x = ?rep y" by simp
        with r(4) show "rep' x = rep' y" by blast
      qed
      have "\<forall>(p, dir) \<in> set (e # es). \<not> chess_board w (fst p) (snd p) (dir + 1)
              \<longrightarrow> rep' p = rep' (add_pos p (move_of (dir + 1)))"
        using r(5) pq' by (simp add: e q_def)
      moreover have "union_loop w (e # es) f = Some (Inr f')"
        unfolding eq using r(1) ne by simp
      ultimately show ?thesis
        using r(2,3) mono by blast
    qed
  qed
qed

lemma find_all_correct:
  "uf_inv C f rep h \<Longrightarrow> set ps \<subseteq> C
    \<Longrightarrow> \<exists>f'. find_all ps f = Some (Inr f') \<and> uf_inv C f' rep h
          \<and> (\<forall>x \<in> set ps. f' x = Some (rep x))
          \<and> (\<forall>y. f y = Some (rep y) \<longrightarrow> f' y = Some (rep y))"
proof (induction ps arbitrary: f)
  case Nil
  then show ?case by simp
next
  case (Cons p ps)
  from Cons.prems(2) have p: "p \<in> C" and ps: "set ps \<subseteq> C" by simp_all
  from find_correct [OF Cons.prems(1) p] obtain f1 where
    f1: "find f p = Some (Inr (f1, rep p))" "uf_inv C f1 rep h" "f1 p = Some (rep p)"
      "\<forall>y. f1 y = f y \<or> f1 y = Some (rep y)" by blast
  from Cons.IH [OF f1(2) ps] obtain f' where
    f': "find_all ps f1 = Some (Inr f')" "uf_inv C f' rep h"
      "\<forall>x \<in> set ps. f' x = Some (rep x)" "\<forall>y. f1 y = Some (rep y) \<longrightarrow> f' y = Some (rep y)"
    by blast
  have "find_all (p # ps) f = Some (Inr f')"
    by (simp add: f1(1) f'(1))
  moreover from f1(3) f'(3,4) have "\<forall>x \<in> set (p # ps). f' x = Some (rep x)"
    by (simp del: split_paired_All)
  moreover from f1(4) f'(4) have "\<forall>y. f y = Some (rep y) \<longrightarrow> f' y = Some (rep y)"
    by metis
  ultimately show ?case
    using f'(2) by blast
qed


section \<open>check_endgame: roots and components\<close>

lemma cells_product: "cells n = List.product [0..n - 1] [0..n - 1]"
  by (simp add: cells_def product_concat_map)

lemma distinct_cells: "distinct (cells n)"
  by (simp add: cells_product distinct_product)

lemma length_cells: "0 \<le> n \<Longrightarrow> int (length (cells n)) = n * n"
  by (simp add: cells_product)

lemma fold_father:
  "fold (\<lambda>p father. father(p \<mapsto> p)) ps m x = (if x \<in> set ps then Some x else m x)"
  by (induction ps arbitrary: m) auto

lemma init_father_apply:
  "init_father n x = (if x \<in> set (cells n) then Some x else None)"
  by (simp add: init_father_def fold_father)

lemma uf_inv_init: "uf_inv (set (cells n)) (init_father n) (\<lambda>x. x) (\<lambda>x. 0)"
  unfolding uf_inv_def by (simp add: init_father_apply del: split_paired_All split_paired_Ex)

lemma edge_order_set:
  "(p, dir) \<in> set (edge_order n) \<longleftrightarrow> p \<in> set (cells n) \<and> (dir = 0 \<or> dir = 1)"
  by (auto simp: edge_order_def)

lemma count_values_card:
  assumes "\<forall>k \<in> set (cells n). f k = Some (rep k)"
  shows "count_values f (cells n) r = int (card {k. k \<in> set (cells n) \<and> rep k = r})"
proof -
  have "filter (\<lambda>k. f k = Some r) (cells n) = filter (\<lambda>k. rep k = r) (cells n)"
    using assms by (intro filter_cong) auto
  moreover have "length (filter (\<lambda>k. rep k = r) (cells n))
      = card ({k. rep k = r} \<inter> set (cells n))"
    by (rule distinct_length_filter [OF distinct_cells])
  moreover have "{k. rep k = r} \<inter> set (cells n) = {k. k \<in> set (cells n) \<and> rep k = r}"
    by blast
  ultimately show ?thesis
    by (simp add: count_values_def)
qed

text \<open>
  What the loops of \<open>check_endgame\<close> compute: a root for every cell, two cells having the
  same root exactly when they are in the same component.
\<close>

lemma check_endgame_roots:
  assumes bw: "border_walls w" and mw: "mirrored_walls w"
    and p0: "check_boundary w (p0_pos w)" and p1: "check_boundary w (p1_pos w)"
  shows "\<exists>rep :: pos \<Rightarrow> pos. (\<forall>x y. check_boundary w x \<longrightarrow> check_boundary w y \<longrightarrow>
                   (rep x = rep y \<longleftrightarrow> same_component w x y))
           \<and> check_endgame w = Some (Inr (rep (p0_pos w) \<noteq> rep (p1_pos w),
                 int (card {k. check_boundary w k \<and> rep k = rep (p0_pos w)}),
                 int (card {k. check_boundary w k \<and> rep k = rep (p1_pos w)})))"
proof -
  let ?n = "board_size w"
  let ?C = "set (cells ?n)"
  have es: "\<forall>(p, dir) \<in> set (edge_order ?n). check_boundary w p \<and> (dir = 0 \<or> dir = 1)"
    by (auto simp: edge_order_set cells_boundary)
  have s0: "\<forall>x \<in> ?C. same_component w x ((\<lambda>x. x) x)"
    by (simp add: same_component_refl)
  from union_loop_correct [OF bw uf_inv_init s0 es] obtain f1 rep h where
    u: "union_loop w (edge_order ?n) (init_father ?n) = Some (Inr f1)"
      "uf_inv ?C f1 rep h" "\<forall>x \<in> ?C. same_component w x (rep x)"
      "\<forall>(p, dir) \<in> set (edge_order ?n). \<not> chess_board w (fst p) (snd p) (dir + 1)
          \<longrightarrow> rep p = rep (add_pos p (move_of (dir + 1)))"
    by blast
  have proc: "rep a = rep (add_pos a (move_of d))"
    if "check_boundary w a" "d = 1 \<or> d = 2" "\<not> chess_board w (fst a) (snd a) d" for a d
  proof -
    from that(1,2) have "(a, d - 1) \<in> set (edge_order ?n)"
      by (auto simp: edge_order_set cells_boundary)
    with u(4) that(3) show ?thesis by fastforce
  qed
  have edge: "rep a = rep b" if "(a, b) \<in> open_edges w" for a b
  proof -
    from that obtain d where a: "check_boundary w a" and b: "check_boundary w b"
      and d: "0 \<le> d" "d \<le> 3" and nw: "\<not> chess_board w (fst a) (snd a) d"
      and ab: "b = add_pos a (move_of d)"
      unfolding open_edges_def by blast
    from mirrored_wallsD [OF mw a d b [unfolded ab]] nw
    have nw': "\<not> chess_board w (fst b) (snd b) (opposite_of d)"
      by (simp add: ab)
    from dir_cases [OF d] show ?thesis
    proof (elim disjE)
      assume "d = 0"
      with proc [OF b, of 2] nw' have "rep b = rep (add_pos b (move_of 2))"
        by (simp add: opposite_of_def)
      moreover have "add_pos b (move_of 2) = a"
        by (simp add: ab \<open>d = 0\<close> add_pos_def move_of_def)
      ultimately show ?thesis by simp
    next
      assume "d = 1"
      with proc [OF a, of 1] nw ab show ?thesis by simp
    next
      assume "d = 2"
      with proc [OF a, of 2] nw ab show ?thesis by simp
    next
      assume "d = 3"
      with proc [OF b, of 1] nw' have "rep b = rep (add_pos b (move_of 1))"
        by (simp add: opposite_of_def)
      moreover have "add_pos b (move_of 1) = a"
        by (simp add: ab \<open>d = 3\<close> add_pos_def move_of_def)
      ultimately show ?thesis by simp
    qed
  qed
  have complete: "rep x = rep y" if "same_component w x y" for x y
    using that unfolding same_component_def
  proof (induction rule: rtrancl_induct)
    case base
    show ?case by simp
  next
    case (step y z)
    from step(2) edge [of y z] edge [of z y] have "rep y = rep z" by auto
    with step(3) show ?case by simp
  qed
  have iff: "rep x = rep y \<longleftrightarrow> same_component w x y"
    if "check_boundary w x" "check_boundary w y" for x y
  proof
    assume "rep x = rep y"
    moreover from u(3) that have "same_component w x (rep x)" "same_component w y (rep y)"
      by (simp_all add: cells_boundary)
    ultimately show "same_component w x y"
      by (metis same_component_sym same_component_trans)
  qed (rule complete)
  from find_all_correct [OF u(2) subset_refl] obtain f2 where
    f2: "find_all (cells ?n) f1 = Some (Inr f2)" "uf_inv ?C f2 rep h"
      "\<forall>x \<in> ?C. f2 x = Some (rep x)" by blast
  from p0 p1 have c0: "p0_pos w \<in> ?C" and c1: "p1_pos w \<in> ?C"
    by (simp_all add: cells_boundary)
  from find_correct [OF f2(2) c0] obtain f3 where
    f3: "find f2 (p0_pos w) = Some (Inr (f3, rep (p0_pos w)))" "uf_inv ?C f3 rep h"
      "\<forall>y. f3 y = f2 y \<or> f3 y = Some (rep y)" by blast
  from f2(3) f3(3) have f3all: "\<forall>x \<in> ?C. f3 x = Some (rep x)" by metis
  from find_correct [OF f3(2) c1] obtain f4 where
    f4: "find f3 (p1_pos w) = Some (Inr (f4, rep (p1_pos w)))"
      "\<forall>y. f4 y = f3 y \<or> f4 y = Some (rep y)" by blast
  from f3all f4(2) have f4all: "\<forall>k \<in> ?C. f4 k = Some (rep k)" by metis
  have cnt: "count_values f4 (cells ?n) r = int (card {k. check_boundary w k \<and> rep k = r})" for r
    using count_values_card [OF f4all, of r] by (simp add: cells_boundary)
  have res: "check_endgame w = Some (Inr (rep (p0_pos w) \<noteq> rep (p1_pos w),
          int (card {k. check_boundary w k \<and> rep k = rep (p0_pos w)}),
          int (card {k. check_boundary w k \<and> rep k = rep (p1_pos w)})))"
    unfolding check_endgame_def
    by (simp add: Let_def u(1) f2(1) f3(1) f4(1) cnt)
  show ?thesis
  proof (rule exI [where x = rep], intro conjI allI impI)
    fix x y assume "check_boundary w x" "check_boundary w y"
    then show "(rep x = rep y) = same_component w x y" by (rule iff)
  next
    show "check_endgame w = Some (Inr (rep (p0_pos w) \<noteq> rep (p1_pos w),
          int (card {k. check_boundary w k \<and> rep k = rep (p0_pos w)}),
          int (card {k. check_boundary w k \<and> rep k = rep (p1_pos w)})))"
      by (rule res)
  qed
qed

lemma check_endgame_components:
  assumes bw: "border_walls w" and mw: "mirrored_walls w"
    and p0: "check_boundary w (p0_pos w)" and p1: "check_boundary w (p1_pos w)"
  shows "check_endgame w = Some (Inr (\<not> same_component w (p0_pos w) (p1_pos w),
           component_size w (p0_pos w), component_size w (p1_pos w)))"
proof -
  from check_endgame_roots [OF assms] obtain rep :: "pos \<Rightarrow> pos" where
    iff: "\<And>x y. check_boundary w x \<Longrightarrow> check_boundary w y \<Longrightarrow>
            (rep x = rep y) = same_component w x y"
    and res: "check_endgame w = Some (Inr (rep (p0_pos w) \<noteq> rep (p1_pos w),
                 int (card {k. check_boundary w k \<and> rep k = rep (p0_pos w)}),
                 int (card {k. check_boundary w k \<and> rep k = rep (p1_pos w)})))"
    by blast
  have set_eq: "{k. check_boundary w k \<and> rep k = rep p} = {b. check_boundary w b \<and> same_component w p b}"
    if "check_boundary w p" for p
  proof -
    have "rep k = rep p \<longleftrightarrow> same_component w p k" if "check_boundary w k" for k
      using iff [OF \<open>check_boundary w p\<close> that] by auto
    then show ?thesis by blast
  qed
  from iff [OF p0 p1] set_eq [OF p0] set_eq [OF p1] res show ?thesis
    by (simp add: component_size_def)
qed

lemma component_size_eq:
  assumes "same_component w a b"
  shows "component_size w a = component_size w b"
proof -
  have "same_component w a c \<longleftrightarrow> same_component w b c" for c
    using assms by (blast intro: same_component_sym same_component_trans)
  then show ?thesis
    by (simp add: component_size_def)
qed

text \<open>
  C3. On a board with its border walls and mirrored walls, and with both players on the
  board, \<open>check_endgame\<close> returns a triple: \<open>ended\<close> holds if and only if the two
  players' cells are in different connected components of the grid graph of unwalled
  adjacencies, the two scores are the numbers of cells of the components of player 0 and
  of player 1, and when the game has not ended the two scores are equal.
\<close>

theorem check_endgame_connected_components:
  assumes "border_walls w" and "mirrored_walls w"
    and "check_boundary w (p0_pos w)" and "check_boundary w (p1_pos w)"
  shows "\<exists>ended score_a score_b.
           check_endgame w = Some (Inr (ended, score_a, score_b))
         \<and> (ended \<longleftrightarrow> \<not> same_component w (p0_pos w) (p1_pos w))
         \<and> score_a = component_size w (p0_pos w)
         \<and> score_b = component_size w (p1_pos w)
         \<and> (\<not> ended \<longrightarrow> score_a = score_b)"
  using check_endgame_components [OF assms] component_size_eq [of w "p0_pos w" "p1_pos w"]
  by simp

theorem check_endgame_connected_components_witness:
  "border_walls (bordered_world 3 (0, 0) (2, 2)) \<and> mirrored_walls (bordered_world 3 (0, 0) (2, 2))
   \<and> check_boundary (bordered_world 3 (0, 0) (2, 2)) (p0_pos (bordered_world 3 (0, 0) (2, 2)))
   \<and> check_boundary (bordered_world 3 (0, 0) (2, 2)) (p1_pos (bordered_world 3 (0, 0) (2, 2)))
   \<and> check_endgame (bordered_world 3 (0, 0) (2, 2)) = Some (Inr (False, 9, 9))
   \<and> same_component (bordered_world 3 (0, 0) (2, 2)) (0, 0) (2, 2)
   \<and> component_size (bordered_world 3 (0, 0) (2, 2)) (0, 0) = 9"
proof -
  let ?w = "bordered_world 3 (0, 0) (2, 2)"
  have a: "check_boundary ?w (p0_pos ?w)" and b: "check_boundary ?w (p1_pos ?w)"
    and pa: "p0_pos ?w = (0, 0)" and pb: "p1_pos ?w = (2, 2)"
    by (simp_all add: check_boundary_def bordered_world_def)
  have ev: "check_endgame ?w = Some (Inr (False, 9, 9))"
    by code_simp
  from check_endgame_connected_components [OF bordered_world_3_ok a b] ev
  have "same_component ?w (0, 0) (2, 2)" and "component_size ?w (0, 0) = 9"
    by (simp_all add: pa pb)
  with bordered_world_3_ok a b ev show ?thesis
    by blast
qed

lemma card_board:
  assumes "0 \<le> board_size w"
  shows "finite {c. check_boundary w c}"
    and "int (card {c. check_boundary w c}) = board_size w * board_size w"
proof -
  have eq: "{c. check_boundary w c} = set (cells (board_size w))"
    by (auto simp: cells_boundary)
  show "finite {c. check_boundary w c}"
    unfolding eq by simp
  show "int (card {c. check_boundary w c}) = board_size w * board_size w"
    unfolding eq using distinct_card [OF distinct_cells, of "board_size w"] length_cells [OF assms]
    by simp
qed

text \<open>
  C6, as the claim states it, fails: on \<open>three_region_world\<close> the players are in different
  components and the scores are 7 and 1, which do not add up to the 9 cells of the board:
  the cell (0, 2) belongs to neither player.
\<close>

theorem check_endgame_sum_counterexample:
  "check_endgame three_region_world = Some (Inr (True, 7, 1))
   \<and> (7::int) + 1 \<noteq> board_size three_region_world * board_size three_region_world"
proof
  show "check_endgame three_region_world = Some (Inr (True, 7, 1))"
    by code_simp
  show "(7::int) + 1 \<noteq> board_size three_region_world * board_size three_region_world"
    by (simp add: three_region_world_def bordered_world_def)
qed

text \<open>
  The position arises in play: these are four turns in which each agent returns a move
  that \<open>step\<close> accepts, and the last turn returns the triple of the counterexample.
\<close>

lemma three_regions_in_play:
  "bind_res (step (bordered_world 3 (0, 0) (2, 2)) (Returns [0, 2] 2 0) (const_rng 0)) (\<lambda>(w1, r1, g1).
   bind_res (step w1 (Returns [2, 2] 3 0) g1) (\<lambda>(w2, r2, g2).
   bind_res (step w2 (Returns [0, 1] 1 0) g2) (\<lambda>(w3, r3, g3).
   bind_res (step w3 (Returns [2, 2] 0 0) g3) (\<lambda>(w4, r4, g4).
     Some (Inr ([r1, r2, r3, r4], p0_pos w4, p1_pos w4, p0_time w4, p1_time w4))))))
   = Some (Inr ([(False, 9, 9), (False, 9, 9), (False, 8, 8), (True, 7, 1)],
                (0, 1), (2, 2), [0, 0], [0, 0]))"
  by code_simp

text \<open>
  C6, amended. On a board with its border walls and mirrored walls, with both players on
  the board and in different components, \<open>check_endgame\<close> returns ended = True, each score
  is the number of cells of that player's component, and the two scores add up to at most
  the number of cells of the board, with equality exactly when every cell of the board is
  in the component of one of the two players.
\<close>

theorem check_endgame_partition_scores:
  assumes "border_walls w" and "mirrored_walls w"
    and "check_boundary w (p0_pos w)" and "check_boundary w (p1_pos w)"
    and "\<not> same_component w (p0_pos w) (p1_pos w)"
  shows "\<exists>score_a score_b.
           check_endgame w = Some (Inr (True, score_a, score_b))
         \<and> score_a = component_size w (p0_pos w)
         \<and> score_b = component_size w (p1_pos w)
         \<and> score_a + score_b \<le> board_size w * board_size w
         \<and> (score_a + score_b = board_size w * board_size w
              \<longleftrightarrow> (\<forall>c. check_boundary w c \<longrightarrow>
                     same_component w (p0_pos w) c \<or> same_component w (p1_pos w) c))"
proof -
  let ?A = "{b. check_boundary w b \<and> same_component w (p0_pos w) b}"
  let ?B = "{b. check_boundary w b \<and> same_component w (p1_pos w) b}"
  let ?C = "{c. check_boundary w c}"
  from assms(3) have n: "0 \<le> board_size w"
    by (simp add: check_boundary_def)
  note C = card_board [OF n]
  have sub: "?A \<union> ?B \<subseteq> ?C" by blast
  have finA: "finite ?A" and finB: "finite ?B"
    using C(1) by (auto intro: finite_subset [of _ ?C])
  have disj: "?A \<inter> ?B = {}"
    using assms(5) by (blast intro: same_component_sym same_component_trans)
  have cu: "card (?A \<union> ?B) = card ?A + card ?B"
    by (rule card_Un_disjoint [OF finA finB disj])
  have le: "card ?A + card ?B \<le> card ?C"
    unfolding cu [symmetric] by (rule card_mono [OF C(1) sub])
  have eq: "card ?A + card ?B = card ?C \<longleftrightarrow> ?A \<union> ?B = ?C"
  proof
    assume "card ?A + card ?B = card ?C"
    then have "card (?A \<union> ?B) = card ?C" by (simp add: cu)
    from card_subset_eq [OF C(1) sub this] show "?A \<union> ?B = ?C" .
  next
    assume "?A \<union> ?B = ?C"
    then have "card (?A \<union> ?B) = card ?C" by simp
    then show "card ?A + card ?B = card ?C" by (simp add: cu)
  qed
  have all: "?A \<union> ?B = ?C \<longleftrightarrow> (\<forall>c. check_boundary w c \<longrightarrow>
      same_component w (p0_pos w) c \<or> same_component w (p1_pos w) c)"
    by blast
  have sum: "component_size w (p0_pos w) + component_size w (p1_pos w)
      = int (card ?A + card ?B)"
    by (simp add: component_size_def)
  have "component_size w (p0_pos w) + component_size w (p1_pos w) \<le> board_size w * board_size w"
    unfolding sum C(2) [symmetric] using le by simp
  moreover have "component_size w (p0_pos w) + component_size w (p1_pos w)
        = board_size w * board_size w
      \<longleftrightarrow> (\<forall>c. check_boundary w c \<longrightarrow>
             same_component w (p0_pos w) c \<or> same_component w (p1_pos w) c)"
    unfolding sum C(2) [symmetric] all [symmetric] eq [symmetric] by (rule of_nat_eq_iff)
  ultimately show ?thesis
    using check_endgame_components [OF assms(1-4)] assms(5) by simp
qed

lemma three_region_world_ok:
  "border_walls three_region_world" "mirrored_walls three_region_world"
  by (simp_all add: three_region_world_def border_walls_def mirrored_walls_def
      bordered_world_def cells_def check_boundary_def add_pos_def move_of_def opposite_of_def
      upto.simps)

theorem check_endgame_partition_scores_witness:
  "border_walls three_region_world \<and> mirrored_walls three_region_world
   \<and> check_boundary three_region_world (p0_pos three_region_world)
   \<and> check_boundary three_region_world (p1_pos three_region_world)
   \<and> \<not> same_component three_region_world (p0_pos three_region_world) (p1_pos three_region_world)
   \<and> check_endgame three_region_world = Some (Inr (True, 7, 1))
   \<and> component_size three_region_world (p0_pos three_region_world) = 7
   \<and> component_size three_region_world (p1_pos three_region_world) = 1
   \<and> \<not> (\<forall>c. check_boundary three_region_world c \<longrightarrow>
            same_component three_region_world (p0_pos three_region_world) c
            \<or> same_component three_region_world (p1_pos three_region_world) c)"
proof -
  let ?w = "three_region_world"
  have a: "check_boundary ?w (p0_pos ?w)" and b: "check_boundary ?w (p1_pos ?w)"
    and n: "board_size ?w = 3"
    by (simp_all add: check_boundary_def three_region_world_def bordered_world_def)
  have ev: "check_endgame ?w = Some (Inr (True, 7, 1))"
    by code_simp
  from check_endgame_components [OF three_region_world_ok a b] ev
  have ns: "\<not> same_component ?w (p0_pos ?w) (p1_pos ?w)"
    by simp
  from check_endgame_partition_scores [OF three_region_world_ok a b ns] ev
  have "component_size ?w (p0_pos ?w) = 7" and "component_size ?w (p1_pos ?w) = 1"
    and "\<not> (\<forall>c. check_boundary ?w c \<longrightarrow>
            same_component ?w (p0_pos ?w) c \<or> same_component ?w (p1_pos ?w) c)"
    by (auto simp: n)
  with three_region_world_ok a b ns ev show ?thesis
    by blast
qed


section \<open>The constructor and the move budget\<close>

lemma board_set_frame:
  assumes "board_set w r c d = Inr w'"
  shows "\<exists>b. w' = w\<lparr>chess_board := b\<rparr>"
proof -
  from assms obtain r' c' d' where
    "w' = w\<lparr>chess_board := (\<lambda>i j k. if i = r' \<and> j = c' \<and> k = d' then True
                                     else chess_board w i j k)\<rparr>"
    unfolding board_set_def bind_err_def by (auto split: sum.splits)
  then show ?thesis by blast
qed

lemma set_barrier_frame:
  assumes "set_barrier w r c d = Inr w'"
  shows "\<exists>b. w' = w\<lparr>chess_board := b\<rparr>"
proof -
  from assms obtain w1 mv od where 1: "board_set w r c d = Inr w1"
    and 2: "board_set w1 (r + fst mv) (c + snd mv) od = Inr w'"
    unfolding set_barrier_def bind_err_def by (auto split: sum.splits)
  from board_set_frame [OF 1] board_set_frame [OF 2] show ?thesis
    by auto
qed

lemma place_barriers_frame:
  "place_barriers k w g = Some (Inr (w', g')) \<Longrightarrow> \<exists>b. w' = w\<lparr>chess_board := b\<rparr>"
proof (induction k arbitrary: w g)
  case 0
  then have "w' = w" by simp
  then have "w' = w\<lparr>chess_board := chess_board w\<rparr>" by simp
  then show ?case by blast
next
  case (Suc k)
  from Suc.prems obtain p dir g1 anti_dir w1 w2 where
    s1: "set_barrier w (fst p) (snd p) dir = Inr w1"
    and s2: "set_barrier w1 (board_size w - 1 - fst p) (board_size w - 1 - snd p) anti_dir = Inr w2"
    and r: "place_barriers k w2 g1 = Some (Inr (w', g'))"
    by (auto simp: bind_res_def Let_def split: option.splits sum.splits prod.splits)
  from set_barrier_frame [OF s1] set_barrier_frame [OF s2] Suc.IH [OF r] show ?case
    by auto
qed

lemma union_loop_initial_end:
  "union_loop (w\<lparr>initial_end := x\<rparr>) es f = union_loop w es f"
proof (induction es arbitrary: f)
  case Nil
  show ?case by simp
next
  case (Cons e es)
  obtain p dir where e: "e = (p, dir)" by (cases e)
  have bg: "board_get (w\<lparr>initial_end := x\<rparr>) (fst p) (snd p) (dir + 1)
      = board_get w (fst p) (snd p) (dir + 1)"
    by (simp add: board_get_def)
  show ?case
    unfolding e union_loop.simps bg by (simp add: Cons.IH cong: if_cong sum.case_cong)
qed

lemma check_endgame_initial_end:
  "check_endgame (w\<lparr>initial_end := x\<rparr>) = check_endgame w"
  by (simp add: check_endgame_def union_loop_initial_end)

lemma roll_positions_ok:
  assumes "roll_positions w g = Some (Inr (w', g'))"
  shows "centrally_symmetric w'"
    and "\<exists>sa sb. check_endgame w' = Some (Inr (initial_end w', sa, sb))"
    and "board_size w' = board_size w" and "max_step w' = max_step w"
proof -
  from assms obtain p ended s0 s1 where
    c: "check_endgame (w\<lparr>p0_pos := p,
          p1_pos := (board_size w - 1 - fst p, board_size w - 1 - snd p)\<rparr>)
        = Some (Inr (ended, s0, s1))"
    and w': "w' = w\<lparr>p0_pos := p,
          p1_pos := (board_size w - 1 - fst p, board_size w - 1 - snd p),
          initial_end := ended\<rparr>"
    unfolding roll_positions_def
    by (auto simp: bind_res_def Let_def split: option.splits sum.splits prod.splits)
  show "centrally_symmetric w'" "board_size w' = board_size w" "max_step w' = max_step w"
    by (simp_all add: w' centrally_symmetric_def)
  from c show "\<exists>sa sb. check_endgame w' = Some (Inr (initial_end w', sa, sb))"
    unfolding w' by (simp add: check_endgame_initial_end)
qed

lemma reroll_loop_ok:
  assumes "reroll_loop w g = Some r"
  shows "\<forall>w' g'. r = Inr (w', g') \<longrightarrow> centrally_symmetric w
    \<longrightarrow> (\<exists>sa sb. check_endgame w = Some (Inr (initial_end w, sa, sb)))
    \<longrightarrow> centrally_symmetric w'
        \<and> (\<exists>sa sb. check_endgame w' = Some (Inr (initial_end w', sa, sb)))
        \<and> p0_pos w' \<noteq> p1_pos w' \<and> \<not> initial_end w'
        \<and> board_size w' = board_size w \<and> max_step w' = max_step w"
proof (rule reroll_loop.raw_induct [where P = "\<lambda>w g r.
    \<forall>w' g'. r = Inr (w', g') \<longrightarrow> centrally_symmetric w
    \<longrightarrow> (\<exists>sa sb. check_endgame w = Some (Inr (initial_end w, sa, sb)))
    \<longrightarrow> centrally_symmetric w'
        \<and> (\<exists>sa sb. check_endgame w' = Some (Inr (initial_end w', sa, sb)))
        \<and> p0_pos w' \<noteq> p1_pos w' \<and> \<not> initial_end w'
        \<and> board_size w' = board_size w \<and> max_step w' = max_step w", OF _ assms], goal_cases)
  case (1 reroll w g r)
  show ?case
  proof (cases "p0_pos w = p1_pos w \<or> initial_end w")
    case False
    with 1(2) show ?thesis by auto
  next
    case True
    with 1(2) have "(case roll_positions w g of None \<Rightarrow> None
           | Some (Inl e) \<Rightarrow> Some (Inl e)
           | Some (Inr (w', g')) \<Rightarrow> reroll w' g') = Some r"
      by simp
    then consider e where "roll_positions w g = Some (Inl e)" "r = Inl e"
      | w1 g1 where "roll_positions w g = Some (Inr (w1, g1))" "reroll w1 g1 = Some r"
      by (auto split: option.splits sum.splits prod.splits)
    then show ?thesis
    proof cases
      case 1
      then show ?thesis by simp
    next
      case 2
      note R = roll_positions_ok [OF 2(1)]
      show ?thesis
      proof (intro allI impI)
        fix w' g' assume "r = Inr (w', g')"
        with 1(1) [OF 2(2)] R(1,2)
        have C: "centrally_symmetric w'
            \<and> (\<exists>sa sb. check_endgame w' = Some (Inr (initial_end w', sa, sb)))
            \<and> p0_pos w' \<noteq> p1_pos w' \<and> \<not> initial_end w'"
          and B: "board_size w' = board_size w1" "max_step w' = max_step w1"
          by blast+
        from B R(3,4) have "board_size w' = board_size w" "max_step w' = max_step w"
          by simp_all
        with C show "centrally_symmetric w'
            \<and> (\<exists>sa sb. check_endgame w' = Some (Inr (initial_end w', sa, sb)))
            \<and> p0_pos w' \<noteq> p1_pos w' \<and> \<not> initial_end w'
            \<and> board_size w' = board_size w \<and> max_step w' = max_step w"
          by blast
      qed
    qed
  qed
qed

lemma World_init_ok:
  assumes "World_init registry lo hi player_1 player_2 board_size_arg autoplay_arg g
     = Some (Inr (w, g'))"
  shows "centrally_symmetric w" and "p0_pos w \<noteq> p1_pos w"
    and "\<exists>sa sb. check_endgame w = Some (Inr (False, sa, sb))"
    and "max_step w = max_step_of (board_size w)"
    and "board_size_arg = Some n \<Longrightarrow> board_size w = n"
proof -
  from assms obtain a0 a1 n0 g1 board w1 g2 w2 g3 where
    n0: "board_size_arg = None \<or> board_size_arg = Some n0"
    and pb: "place_barriers (nat (n0 div 2 - 1))
        \<lparr>p0 = a0, p1 = a1, board_size = n0, turn = 0,
          p0_time = [], p1_time = [], results_cache = None,
          chess_board = board, max_step = max_step_of n0,
          p0_pos = (0, 0), p1_pos = (0, 0), initial_end = False\<rparr> g1 = Some (Inr (w1, g2))"
    and rp: "roll_positions w1 g2 = Some (Inr (w2, g3))"
    and rl: "reroll_loop w2 g3 = Some (Inr (w, g'))"
    unfolding World_init_def
    by (auto simp: bind_res_def Let_def split: option.splits sum.splits prod.splits if_splits)
  from place_barriers_frame [OF pb] have w1: "board_size w1 = n0" "max_step w1 = max_step_of n0"
    by auto
  note R = roll_positions_ok [OF rp]
  from reroll_loop_ok [OF rl] R(1,2)
  have "centrally_symmetric w
      \<and> (\<exists>sa sb. check_endgame w = Some (Inr (initial_end w, sa, sb)))
      \<and> p0_pos w \<noteq> p1_pos w \<and> \<not> initial_end w
      \<and> board_size w = board_size w2 \<and> max_step w = max_step w2"
    by blast
  then have L: "centrally_symmetric w" "\<exists>sa sb. check_endgame w = Some (Inr (initial_end w, sa, sb))"
    "p0_pos w \<noteq> p1_pos w" "\<not> initial_end w" "board_size w = board_size w2"
    "max_step w = max_step w2"
    by blast+
  show "centrally_symmetric w" "p0_pos w \<noteq> p1_pos w" by (rule L)+
  from L(2,4) show "\<exists>sa sb. check_endgame w = Some (Inr (False, sa, sb))" by simp
  from L(5,6) R(3,4) w1 show "max_step w = max_step_of (board_size w)" by simp
  assume "board_size_arg = Some n"
  with n0 L(5) R(3) w1 show "board_size w = n" by simp
qed

lemma try_move_frame:
  assumes "try_move w cur outcome = Some (w1, tt, tried)"
  shows "max_step w1 = max_step w \<and> board_size w1 = board_size w"
  using assms
  by (auto simp: try_move_def update_player_time_def Let_def
      split: agent_outcome.splits option.splits sum.splits if_splits)

lemma apply_move_frame:
  assumes "apply_move w tt next_pos dir = Some (Inr (w', results))"
  shows "max_step w' = max_step w \<and> board_size w' = board_size w"
proof -
  let ?w2 = "if turn w = 0 then w\<lparr>p0_pos := next_pos\<rparr> else w\<lparr>p1_pos := next_pos\<rparr>"
  from assms obtain w3 where s: "set_barrier ?w2 (fst next_pos) (snd next_pos) dir = Inr w3"
    and w': "w' = w3\<lparr>turn := 1 - turn w3, results_cache := Some results\<rparr>"
    unfolding apply_move_def
    by (auto simp: bind_res_def Let_def split: option.splits sum.splits if_splits)
  from set_barrier_frame [OF s] obtain b where "w3 = ?w2\<lparr>chess_board := b\<rparr>" by blast
  then show ?thesis
    by (simp add: w')
qed

lemma step_frame:
  assumes "step v outcome g1 = Some (Inr (v', results, g2))"
  shows "max_step v' = max_step v \<and> board_size v' = board_size v"
proof -
  from assms obtain cur w1 tt tried next_pos dir where
    t: "try_move v cur outcome = Some (w1, tt, tried)"
    and a: "apply_move w1 tt next_pos dir = Some (Inr (v', results))"
    unfolding step_def
    by (auto simp: bind_res_def Let_def split: option.splits sum.splits prod.splits)
  from try_move_frame [OF t] apply_move_frame [OF a] show ?thesis
    by simp
qed

lemma ceil_half: "(n + 1) div 2 = \<lceil>real_of_int n / 2\<rceil>"
proof -
  have "\<lceil>real_of_int n / real_of_int 2\<rceil> = - (- n div 2)"
    by (rule ceiling_divide_eq_div)
  then show ?thesis by simp
qed

text \<open>
  C2, as the claim states it, fails: for board size 4 the constructor sets \<open>max_step\<close> to
  \<open>(4 + 1) // 2 = 2\<close>, and the ceiling of 5/2 is 3. The random source here makes the one
  random barrier the wall to the right of the cell (1, 1).
\<close>

theorem max_step_ceiling_counterexample:
  "map_option (map_sum id (max_step \<circ> fst))
     (World_init default_registry 6 12 ''random_agent'' ''random_agent'' (Some 4)
        False ones_then_zeros)
   = Some (Inr 2)
   \<and> (2::int) \<noteq> \<lceil>(4 + 1) / (2::real)\<rceil>"
proof
  show "map_option (map_sum id (max_step \<circ> fst))
     (World_init default_registry 6 12 ''random_agent'' ''random_agent'' (Some 4)
        False ones_then_zeros) = Some (Inr 2)"
    by code_simp
  show "(2::int) \<noteq> \<lceil>(4 + 1) / (2::real)\<rceil>"
    by simp
qed

text \<open>
  C2, amended. When the constructor returns, \<open>max_step\<close> is \<open>(N + 1) // 2\<close> for the board
  size \<open>N\<close> of the world, which is the ceiling of \<open>N / 2\<close> (2 for \<open>N = 4\<close>); \<open>N\<close> is the
  size asked for when one was given; and no turn changes \<open>max_step\<close> or the board size.
\<close>

theorem World_init_max_step:
  assumes "World_init registry lo hi player_1 player_2 board_size_arg autoplay_arg g
     = Some (Inr (w, g'))"
  shows "max_step w = (board_size w + 1) div 2
       \<and> max_step w = \<lceil>real_of_int (board_size w) / 2\<rceil>
       \<and> (\<forall>n. board_size_arg = Some n \<longrightarrow> board_size w = n)
       \<and> (\<forall>v outcome g1 v' results g2.
            step v outcome g1 = Some (Inr (v', results, g2))
            \<longrightarrow> max_step v' = max_step v \<and> board_size v' = board_size v)"
proof -
  note I = World_init_ok [OF assms]
  from I(4) have m: "max_step w = (board_size w + 1) div 2"
    by (simp add: max_step_of_def)
  with ceil_half [of "board_size w"] have "max_step w = \<lceil>real_of_int (board_size w) / 2\<rceil>"
    by simp
  with m I(5) step_frame show ?thesis
    by blast
qed

lemma World_init_returns:
  assumes "map_option (map_sum id f) (World_init registry lo hi n1 n2 b ap g) = Some (Inr x)"
  shows "\<exists>w g'. World_init registry lo hi n1 n2 b ap g = Some (Inr (w, g')) \<and> f (w, g') = x"
proof (cases "World_init registry lo hi n1 n2 b ap g")
  case None
  with assms show ?thesis by simp
next
  case (Some r)
  with assms show ?thesis by (cases r) auto
qed

theorem World_init_max_step_witness:
  "\<exists>w g'. World_init default_registry 6 12 ''random_agent'' ''random_agent'' (Some 4)
        False ones_then_zeros = Some (Inr (w, g'))
     \<and> board_size w = 4 \<and> max_step w = 2 \<and> max_step w = \<lceil>real_of_int (board_size w) / 2\<rceil>"
proof -
  have "map_option (map_sum id (\<lambda>(w, g). max_step w))
     (World_init default_registry 6 12 ''random_agent'' ''random_agent'' (Some 4)
        False ones_then_zeros) = Some (Inr 2)"
    by code_simp
  from World_init_returns [OF this] obtain w g' where
    r: "World_init default_registry 6 12 ''random_agent'' ''random_agent'' (Some 4)
        False ones_then_zeros = Some (Inr (w, g'))"
    and m: "max_step w = 2" by auto
  from World_init_max_step [OF r] m show ?thesis
    using r by auto
qed

text \<open>
  C10. When the constructor returns, the start positions are centrally symmetric and
  distinct, and \<open>check_endgame\<close> on the world returned says that the game has not ended.
  The symmetry holds after every roll of the positions, the first one and each one of the
  re-roll loop.
\<close>

theorem World_init_start_positions:
  assumes "World_init registry lo hi player_1 player_2 board_size_arg autoplay_arg g
     = Some (Inr (w, g'))"
  shows "centrally_symmetric w \<and> p0_pos w \<noteq> p1_pos w
       \<and> (\<exists>score_a score_b. check_endgame w = Some (Inr (False, score_a, score_b)))
       \<and> (\<forall>v g0 v' g1. roll_positions v g0 = Some (Inr (v', g1)) \<longrightarrow> centrally_symmetric v')"
  using World_init_ok(1,2,3) [OF assms] roll_positions_ok(1)
  by blast

theorem World_init_start_positions_witness:
  "\<exists>w g'. World_init default_registry 6 12 ''random_agent'' ''random_agent'' (Some 3)
        False (const_rng 0) = Some (Inr (w, g'))
     \<and> p0_pos w = (0, 0) \<and> p1_pos w = (2, 2) \<and> board_size w = 3
     \<and> centrally_symmetric w \<and> p0_pos w \<noteq> p1_pos w
     \<and> (\<exists>score_a score_b. check_endgame w = Some (Inr (False, score_a, score_b)))"
proof -
  have "map_option (map_sum id (\<lambda>(w, g). (p0_pos w, p1_pos w, board_size w)))
     (World_init default_registry 6 12 ''random_agent'' ''random_agent'' (Some 3)
        False (const_rng 0)) = Some (Inr ((0, 0), (2, 2), 3))"
    by code_simp
  from World_init_returns [OF this] obtain w g' where
    r: "World_init default_registry 6 12 ''random_agent'' ''random_agent'' (Some 3)
        False (const_rng 0) = Some (Inr (w, g'))"
    and p: "p0_pos w = (0, 0)" "p1_pos w = (2, 2)" "board_size w = 3" by auto
  from World_init_start_positions [OF r] p r show ?thesis
    by blast
qed


end
